theory Spec2Isabelle
  imports Main
begin

section \<open>The Gym environment interface\<close>

text \<open>
  The wrappers of \<^verbatim>\<open>stable_baselines3/common/atari_wrappers.py\<close> hold an inner
  environment in \<^verbatim>\<open>self.env\<close> and call its \<^verbatim>\<open>reset\<close> and \<^verbatim>\<open>step\<close>.
  An environment object is a value of a type \<open>'e\<close>; a call takes the object and
  returns the object as the call left it. A Python exception is the value \<open>Inl\<close>
  of the result; it ends the call that was running, as the exception does.

  Exceptions carry their message. A bare \<^verbatim>\<open>assert cond\<close> raises an
  \<^verbatim>\<open>AssertionError\<close> whose message is empty.
\<close>

datatype error =
    AssertionError string
  | IndexError string
  | UnboundLocalError string
  | ValueError string
  | EnvError string

fun message :: "error \<Rightarrow> string" where
  "message (AssertionError m) = m"
| "message (IndexError m) = m"
| "message (UnboundLocalError m) = m"
| "message (ValueError m) = m"
| "message (EnvError m) = m"

text \<open>
  An observation is the array of pixels, flattened. A step returns
  \<^verbatim>\<open>(obs, reward, done, info)\<close>.
\<close>

type_synonym 'p GymObs = "'p list"
type_synonym ('p, 'r, 'i) GymStepReturn = "'p list \<times> 'r \<times> bool \<times> 'i"

text \<open>
  The methods of the inner environment that the wrappers call:
  \<^item> \<open>reset kwargs env\<close> is \<^verbatim>\<open>env.reset(**kwargs)\<close>;
  \<^item> \<open>step action env\<close> is \<^verbatim>\<open>env.step(action)\<close>;
  \<^item> \<open>ale_lives env\<close> is \<^verbatim>\<open>env.unwrapped.ale.lives()\<close>;
  \<^item> \<open>randint low high env\<close> is \<^verbatim>\<open>env.unwrapped.np_random.randint(low, high)\<close>,
    which advances the generator that the environment owns.
\<close>

record ('e, 'k, 'p, 'r, 'i) gym_env =
  reset :: "'k \<Rightarrow> 'e \<Rightarrow> error + ('p list \<times> 'e)"
  step :: "int \<Rightarrow> 'e \<Rightarrow> error + (('p list \<times> 'r \<times> bool \<times> 'i) \<times> 'e)"
  ale_lives :: "'e \<Rightarrow> int"
  randint :: "int \<Rightarrow> int \<Rightarrow> 'e \<Rightarrow> error + (int \<times> 'e)"

subsection \<open>Call-count instrumentation\<close>

text \<open>
  \<open>traced G\<close> is the environment \<open>G\<close> with a log: every call of \<open>reset\<close>,
  \<open>step\<close> and \<open>randint\<close> that returns appends one entry holding the arguments and
  what the call returned. The log is how the number and the order of the calls
  that a wrapper makes on its inner environment are stated.
\<close>

datatype ('k, 'p, 'r, 'i) call =
    Reset 'k "'p list"
  | Step int "'p list \<times> 'r \<times> bool \<times> 'i"
  | Randint int int int

definition traced ::
  "('e, 'k, 'p, 'r, 'i) gym_env \<Rightarrow>
   ('e \<times> ('k, 'p, 'r, 'i) call list, 'k, 'p, 'r, 'i) gym_env" where
  "traced G =
     \<lparr> reset = (\<lambda>kwargs (env, t).
         case reset G kwargs env of
           Inl x \<Rightarrow> Inl x
         | Inr (obs, env') \<Rightarrow> Inr (obs, (env', t @ [Reset kwargs obs]))),
       step = (\<lambda>action (env, t).
         case step G action env of
           Inl x \<Rightarrow> Inl x
         | Inr (r, env') \<Rightarrow> Inr (r, (env', t @ [Step action r]))),
       ale_lives = (\<lambda>(env, t). ale_lives G env),
       randint = (\<lambda>low high (env, t).
         case randint G low high env of
           Inl x \<Rightarrow> Inl x
         | Inr (n, env') \<Rightarrow> Inr (n, (env', t @ [Randint low high n]))) \<rparr>"

fun is_reset :: "('k, 'p, 'r, 'i) call \<Rightarrow> bool" where
  "is_reset (Reset kwargs obs) = True"
| "is_reset c = False"

fun is_step :: "('k, 'p, 'r, 'i) call \<Rightarrow> bool" where
  "is_step (Step action r) = True"
| "is_step c = False"

fun is_done_step :: "('k, 'p, 'r, 'i) call \<Rightarrow> bool" where
  "is_done_step (Step action (obs, reward, done, info)) = done"
| "is_done_step c = False"

section \<open>Python and numpy operations used by the wrappers\<close>

text \<open>\<^verbatim>\<open>xs[i]\<close> on a Python list, for an index that is not negative.\<close>

definition getitem :: "'a list \<Rightarrow> nat \<Rightarrow> error + 'a" where
  "getitem xs i =
     (if i < length xs then Inr (xs ! i) else Inl (IndexError ''list index out of range''))"

text \<open>
  \<^verbatim>\<open>buffer[k] = obs\<close> on a numpy array: the frame is copied into the row when it
  has the shape of the row. A frame of another shape raises \<^verbatim>\<open>ValueError\<close>
  (numpy would first try to broadcast a smaller frame; the environments here
  return frames of the declared shape, and the model raises for every other one).
\<close>

definition store_frame :: "'p list \<Rightarrow> 'p list \<Rightarrow> error + 'p list" where
  "store_frame row obs =
     (if length obs = length row then Inr obs
      else Inl (ValueError ''could not broadcast input array''))"

text \<open>\<^verbatim>\<open>buffer.max(axis=0)\<close> on a buffer of two rows: the element-wise maximum.\<close>

definition max_axis0 :: "('p::linorder) list \<times> 'p list \<Rightarrow> 'p list" where
  "max_axis0 buf = map2 max (fst buf) (snd buf)"

text \<open>\<^verbatim>\<open>np.zeros((2,) + shape)\<close>, each row flattened.\<close>

definition np_zeros2 :: "nat list \<Rightarrow> ('p::zero) list \<times> 'p list" where
  "np_zeros2 shape = (replicate (prod_list shape) 0, replicate (prod_list shape) 0)"

section \<open>NoopResetEnv\<close>

datatype 'e NoopResetEnv =
  NoopResetEnv (noop_env: 'e) (noop_max: int) (override_num_noops: "int option")
    (noop_action: int)

text \<open>
  The first argument of a constructor that reads the action set is
  \<^verbatim>\<open>env.unwrapped.get_action_meanings()\<close> as a function of the environment.
\<close>

definition NoopResetEnv_init ::
  "('e \<Rightarrow> string list) \<Rightarrow> 'e \<Rightarrow> int \<Rightarrow> int option \<Rightarrow> error + 'e NoopResetEnv" where
  "NoopResetEnv_init get_action_meanings env noop_max' override_num_noops' =
     (case getitem (get_action_meanings env) 0 of
        Inl x \<Rightarrow> Inl x
      | Inr m \<Rightarrow>
          if m = ''NOOP'' then Inr (NoopResetEnv env noop_max' override_num_noops' 0)
          else Inl (AssertionError []))"

text \<open>
  The loop \<^verbatim>\<open>for _ in range(noops)\<close> of \<^verbatim>\<open>reset\<close>; \<open>n\<close> is the number of
  iterations left and \<open>obs\<close> the current value of the variable \<^verbatim>\<open>obs\<close>.
\<close>

fun NoopResetEnv_loop ::
  "('e, 'k, 'p, 'r, 'i) gym_env \<Rightarrow> 'k \<Rightarrow> int \<Rightarrow> nat \<Rightarrow> 'e \<Rightarrow> 'p list \<Rightarrow>
   error + ('p list \<times> 'e)" where
  "NoopResetEnv_loop G kwargs action 0 env obs = Inr (obs, env)"
| "NoopResetEnv_loop G kwargs action (Suc n) env obs =
     (case step G action env of
        Inl x \<Rightarrow> Inl x
      | Inr ((obs1, reward, done, info), env1) \<Rightarrow>
          if done then
            (case reset G kwargs env1 of
               Inl x \<Rightarrow> Inl x
             | Inr (obs2, env2) \<Rightarrow> NoopResetEnv_loop G kwargs action n env2 obs2)
          else NoopResetEnv_loop G kwargs action n env1 obs1)"

definition NoopResetEnv_reset ::
  "('e, 'k, 'p, 'r, 'i) gym_env \<Rightarrow> 'k \<Rightarrow> 'e NoopResetEnv \<Rightarrow>
   error + ('p list \<times> 'e NoopResetEnv)" where
  "NoopResetEnv_reset G kwargs self =
     (case reset G kwargs (noop_env self) of
        Inl x \<Rightarrow> Inl x
      | Inr (obs0, env1) \<Rightarrow>
          (case (case override_num_noops self of
                   Some n \<Rightarrow> Inr (n, env1)
                 | None \<Rightarrow> randint G 1 (noop_max self + 1) env1) of
             Inl x \<Rightarrow> Inl x
           | Inr (noops, env2) \<Rightarrow>
               if \<not> 0 < noops then Inl (AssertionError [])
               else
                 (case NoopResetEnv_loop G kwargs (noop_action self) (nat noops) env2 [] of
                    Inl x \<Rightarrow> Inl x
                  | Inr (obs, env3) \<Rightarrow>
                      Inr (obs, NoopResetEnv env3 (noop_max self) (override_num_noops self)
                                  (noop_action self)))))"

section \<open>FireResetEnv\<close>

datatype 'e FireResetEnv = FireResetEnv (fire_env: 'e)

definition FireResetEnv_init ::
  "('e \<Rightarrow> string list) \<Rightarrow> 'e \<Rightarrow> error + 'e FireResetEnv" where
  "FireResetEnv_init get_action_meanings env =
     (case getitem (get_action_meanings env) 1 of
        Inl x \<Rightarrow> Inl x
      | Inr m \<Rightarrow>
          if m \<noteq> ''FIRE'' then Inl (AssertionError [])
          else if \<not> 3 \<le> length (get_action_meanings env) then Inl (AssertionError [])
          else Inr (FireResetEnv env))"

definition FireResetEnv_reset ::
  "('e, 'k, 'p, 'r, 'i) gym_env \<Rightarrow> 'k \<Rightarrow> 'e FireResetEnv \<Rightarrow>
   error + ('p list \<times> 'e FireResetEnv)" where
  "FireResetEnv_reset G kwargs self =
     (case reset G kwargs (fire_env self) of
        Inl x \<Rightarrow> Inl x
      | Inr (obs0, env1) \<Rightarrow>
     (case step G 1 env1 of
        Inl x \<Rightarrow> Inl x
      | Inr ((obs1, reward1, done1, info1), env2) \<Rightarrow>
     (case (if done1 then (case reset G kwargs env2 of
                             Inl x \<Rightarrow> Inl x
                           | Inr (obs', env') \<Rightarrow> Inr env')
            else Inr env2) of
        Inl x \<Rightarrow> Inl x
      | Inr env3 \<Rightarrow>
     (case step G 2 env3 of
        Inl x \<Rightarrow> Inl x
      | Inr ((obs2, reward2, done2, info2), env4) \<Rightarrow>
     (case (if done2 then (case reset G kwargs env4 of
                             Inl x \<Rightarrow> Inl x
                           | Inr (obs', env') \<Rightarrow> Inr env')
            else Inr env4) of
        Inl x \<Rightarrow> Inl x
      | Inr env5 \<Rightarrow> Inr (obs2, FireResetEnv env5))))))"

text \<open>
  Modelled from the spec: \<^verbatim>\<open>FireResetEnv\<close> defines no \<^verbatim>\<open>step\<close>; the one it
  inherits from \<^verbatim>\<open>gym.Wrapper\<close> is not part of the sources. Section 4.4 of the
  specification: step passes through unchanged.
\<close>

definition FireResetEnv_step ::
  "('e, 'k, 'p, 'r, 'i) gym_env \<Rightarrow> int \<Rightarrow> 'e FireResetEnv \<Rightarrow>
   error + (('p list \<times> 'r \<times> bool \<times> 'i) \<times> 'e FireResetEnv)" where
  "FireResetEnv_step G action self =
     (case step G action (fire_env self) of
        Inl x \<Rightarrow> Inl x
      | Inr (r, env') \<Rightarrow> Inr (r, FireResetEnv env'))"

section \<open>EpisodicLifeEnv\<close>

datatype 'e EpisodicLifeEnv =
  EpisodicLifeEnv (life_env: 'e) (lives: int) (was_real_done: bool)

definition EpisodicLifeEnv_init :: "'e \<Rightarrow> 'e EpisodicLifeEnv" where
  "EpisodicLifeEnv_init env = EpisodicLifeEnv env 0 True"

definition EpisodicLifeEnv_step ::
  "('e, 'k, 'p, 'r, 'i) gym_env \<Rightarrow> int \<Rightarrow> 'e EpisodicLifeEnv \<Rightarrow>
   error + (('p list \<times> 'r \<times> bool \<times> 'i) \<times> 'e EpisodicLifeEnv)" where
  "EpisodicLifeEnv_step G action self =
     (case step G action (life_env self) of
        Inl x \<Rightarrow> Inl x
      | Inr ((obs, reward, done, info), env') \<Rightarrow>
          let lives' = ale_lives G env';
              done' = (if 0 < lives' \<and> lives' < lives self then True else done)
          in Inr ((obs, reward, done', info), EpisodicLifeEnv env' lives' done))"

definition EpisodicLifeEnv_reset ::
  "('e, 'k, 'p, 'r, 'i) gym_env \<Rightarrow> 'k \<Rightarrow> 'e EpisodicLifeEnv \<Rightarrow>
   error + ('p list \<times> 'e EpisodicLifeEnv)" where
  "EpisodicLifeEnv_reset G kwargs self =
     (case (if was_real_done self then reset G kwargs (life_env self)
            else (case step G 0 (life_env self) of
                    Inl x \<Rightarrow> Inl x
                  | Inr ((obs, reward, done, info), env') \<Rightarrow> Inr (obs, env'))) of
        Inl x \<Rightarrow> Inl x
      | Inr (obs, env') \<Rightarrow>
          Inr (obs, EpisodicLifeEnv env' (ale_lives G env') (was_real_done self)))"

section \<open>MaxAndSkipEnv\<close>

datatype ('e, 'p) MaxAndSkipEnv =
  MaxAndSkipEnv (skip_env: 'e) (obs_buffer: "'p list \<times> 'p list") (skip: int)

text \<open>
  The first argument of the constructor is \<^verbatim>\<open>env.observation_space.shape\<close> as a
  function of the environment.
\<close>

definition MaxAndSkipEnv_init ::
  "('e \<Rightarrow> nat list) \<Rightarrow> 'e \<Rightarrow> int \<Rightarrow> ('e, 'p::zero) MaxAndSkipEnv" where
  "MaxAndSkipEnv_init observation_space_shape env skip' =
     MaxAndSkipEnv env (np_zeros2 (observation_space_shape env)) skip'"

text \<open>
  The loop \<^verbatim>\<open>for i in range(self._skip)\<close> of \<^verbatim>\<open>step\<close>, from iteration \<open>i\<close> on.
  \<open>done_info\<close> holds \<^verbatim>\<open>done\<close> and \<^verbatim>\<open>info\<close> once an iteration has assigned them.
\<close>

function MaxAndSkipEnv_loop ::
  "('e, 'k, 'p, 'r::plus, 'i) gym_env \<Rightarrow> int \<Rightarrow> int \<Rightarrow> nat \<Rightarrow> 'e \<Rightarrow>
   'p list \<times> 'p list \<Rightarrow> 'r \<Rightarrow> (bool \<times> 'i) option \<Rightarrow>
   error + (('p list \<times> 'p list) \<times> 'r \<times> (bool \<times> 'i) option \<times> 'e)" where
  "MaxAndSkipEnv_loop G action skip' i env buf total_reward done_info =
     (if int i < skip' then
        (case step G action env of
           Inl x \<Rightarrow> Inl x
         | Inr ((obs, reward, done, info), env') \<Rightarrow>
        (case (if int i = skip' - 2 then
                 (case store_frame (fst buf) obs of
                    Inl x \<Rightarrow> Inl x
                  | Inr row \<Rightarrow> Inr (row, snd buf))
               else Inr buf) of
           Inl x \<Rightarrow> Inl x
         | Inr buf1 \<Rightarrow>
        (case (if int i = skip' - 1 then
                 (case store_frame (snd buf1) obs of
                    Inl x \<Rightarrow> Inl x
                  | Inr row \<Rightarrow> Inr (fst buf1, row))
               else Inr buf1) of
           Inl x \<Rightarrow> Inl x
         | Inr buf2 \<Rightarrow>
             if done then Inr (buf2, total_reward + reward, Some (done, info), env')
             else MaxAndSkipEnv_loop G action skip' (Suc i) env' buf2
                    (total_reward + reward) (Some (done, info)))))
      else Inr (buf, total_reward, done_info, env))"
  by pat_completeness auto
termination
  by (relation "measure (\<lambda>(G, action, skip', i, env, buf, total_reward, done_info).
                           nat (skip' - int i))") auto

definition MaxAndSkipEnv_step ::
  "('e, 'k, 'p::linorder, 'r::{zero,plus}, 'i) gym_env \<Rightarrow> int \<Rightarrow> ('e, 'p) MaxAndSkipEnv \<Rightarrow>
   error + (('p list \<times> 'r \<times> bool \<times> 'i) \<times> ('e, 'p) MaxAndSkipEnv)" where
  "MaxAndSkipEnv_step G action self =
     (case MaxAndSkipEnv_loop G action (skip self) 0 (skip_env self) (obs_buffer self) 0 None of
        Inl x \<Rightarrow> Inl x
      | Inr (buf, total_reward, done_info, env') \<Rightarrow>
          let max_frame = max_axis0 buf in
          (case done_info of
             None \<Rightarrow> Inl (UnboundLocalError ''info'')
           | Some (done, info) \<Rightarrow>
               Inr ((max_frame, total_reward, done, info),
                    MaxAndSkipEnv env' buf (skip self))))"

definition MaxAndSkipEnv_reset ::
  "('e, 'k, 'p, 'r, 'i) gym_env \<Rightarrow> 'k \<Rightarrow> ('e, 'p) MaxAndSkipEnv \<Rightarrow>
   error + ('p list \<times> ('e, 'p) MaxAndSkipEnv)" where
  "MaxAndSkipEnv_reset G kwargs self =
     (case reset G kwargs (skip_env self) of
        Inl x \<Rightarrow> Inl x
      | Inr (obs, env') \<Rightarrow> Inr (obs, MaxAndSkipEnv env' (obs_buffer self) (skip self)))"

section \<open>WarpFrame and ClipRewardEnv: construction\<close>

text \<open>
  Only the constructors of these two classes are modelled: \<^verbatim>\<open>observation\<close> calls
  OpenCV and \<^verbatim>\<open>reward\<close> calls \<^verbatim>\<open>np.sign\<close> on a float.

  \<^verbatim>\<open>WarpFrame.__init__\<close> stores its arguments and builds the observation space
  \<^verbatim>\<open>spaces.Box(low=0, high=255, shape=(height, width, 1))\<close>; the Box fills an array
  of that shape, which numpy refuses for a negative dimension.
\<close>

datatype ('e, 'g) WarpFrame =
  WarpFrame (warp_env: 'e) (width: int) (height: int) (region: "'g option")
    (observation_space_shape: "nat list")

definition WarpFrame_init ::
  "'e \<Rightarrow> int \<Rightarrow> int \<Rightarrow> 'g option \<Rightarrow> error + ('e, 'g) WarpFrame" where
  "WarpFrame_init env width' height' region' =
     (if height' < 0 \<or> width' < 0 then Inl (ValueError ''negative dimensions are not allowed'')
      else Inr (WarpFrame env width' height' region' [nat height', nat width', 1]))"

datatype 'e ClipRewardEnv = ClipRewardEnv (clip_env: 'e)

definition ClipRewardEnv_init :: "'e \<Rightarrow> 'e ClipRewardEnv" where
  "ClipRewardEnv_init env = ClipRewardEnv env"

section \<open>AtariWrapper\<close>

text \<open>
  The variable \<^verbatim>\<open>env\<close> of \<^verbatim>\<open>AtariWrapper.__init__\<close> holds, in turn, the raw
  environment and objects of the wrapper classes. \<open>Env\<close> is the type of these
  objects: the raw environment, or a wrapper around an \<open>Env\<close>.
\<close>

datatype ('s, 'p, 'g) Env =
    Unwrapped 's
  | Noop "('s, 'p, 'g) Env NoopResetEnv"
  | MaxAndSkip "(('s, 'p, 'g) Env, 'p) MaxAndSkipEnv"
  | EpisodicLife "('s, 'p, 'g) Env EpisodicLifeEnv"
  | FireReset "('s, 'p, 'g) Env FireResetEnv"
  | Warp "(('s, 'p, 'g) Env, 'g) WarpFrame"
  | ClipReward "('s, 'p, 'g) Env ClipRewardEnv"

text \<open>\<^verbatim>\<open>env.unwrapped\<close>: the raw environment under all wrappers.\<close>

fun unwrapped :: "('s, 'p, 'g) Env \<Rightarrow> 's" where
  "unwrapped (Unwrapped s) = s"
| "unwrapped (Noop (NoopResetEnv env nm ov na)) = unwrapped env"
| "unwrapped (MaxAndSkip (MaxAndSkipEnv env buf sk)) = unwrapped env"
| "unwrapped (EpisodicLife (EpisodicLifeEnv env l wrd)) = unwrapped env"
| "unwrapped (FireReset (FireResetEnv env)) = unwrapped env"
| "unwrapped (Warp (WarpFrame env w h rg sh)) = unwrapped env"
| "unwrapped (ClipReward (ClipRewardEnv env)) = unwrapped env"

text \<open>
  \<^verbatim>\<open>env.observation_space.shape\<close>: a wrapper has the observation space of the
  environment it wraps, except \<^verbatim>\<open>WarpFrame\<close>, which declares its own.
\<close>

fun observation_shape :: "('s \<Rightarrow> nat list) \<Rightarrow> ('s, 'p, 'g) Env \<Rightarrow> nat list" where
  "observation_shape raw_shape (Unwrapped s) = raw_shape s"
| "observation_shape raw_shape (Noop (NoopResetEnv env nm ov na)) =
     observation_shape raw_shape env"
| "observation_shape raw_shape (MaxAndSkip (MaxAndSkipEnv env buf sk)) =
     observation_shape raw_shape env"
| "observation_shape raw_shape (EpisodicLife (EpisodicLifeEnv env l wrd)) =
     observation_shape raw_shape env"
| "observation_shape raw_shape (FireReset (FireResetEnv env)) =
     observation_shape raw_shape env"
| "observation_shape raw_shape (Warp (WarpFrame env w h rg sh)) = sh"
| "observation_shape raw_shape (ClipReward (ClipRewardEnv env)) =
     observation_shape raw_shape env"

text \<open>The classes of the wrappers around an environment, the outermost first.\<close>

fun wrappers :: "('s, 'p, 'g) Env \<Rightarrow> string list" where
  "wrappers (Unwrapped s) = []"
| "wrappers (Noop (NoopResetEnv env nm ov na)) = ''NoopResetEnv'' # wrappers env"
| "wrappers (MaxAndSkip (MaxAndSkipEnv env buf sk)) = ''MaxAndSkipEnv'' # wrappers env"
| "wrappers (EpisodicLife (EpisodicLifeEnv env l wrd)) = ''EpisodicLifeEnv'' # wrappers env"
| "wrappers (FireReset (FireResetEnv env)) = ''FireResetEnv'' # wrappers env"
| "wrappers (Warp (WarpFrame env w h rg sh)) = ''WarpFrame'' # wrappers env"
| "wrappers (ClipReward (ClipRewardEnv env)) = ''ClipRewardEnv'' # wrappers env"

datatype 'e AtariWrapper = AtariWrapper (atari_env: 'e)

text \<open>
  \<open>raw_meanings\<close> is \<^verbatim>\<open>get_action_meanings()\<close> of the raw environment and
  \<open>raw_shape\<close> its \<^verbatim>\<open>observation_space.shape\<close>.
\<close>

definition AtariWrapper_init ::
  "('s \<Rightarrow> string list) \<Rightarrow> ('s \<Rightarrow> nat list) \<Rightarrow> 's \<Rightarrow> int \<Rightarrow> int \<Rightarrow> 'g option \<Rightarrow> int \<Rightarrow>
   int option \<Rightarrow> bool \<Rightarrow> bool \<Rightarrow> error + ('s, 'p::zero, 'g) Env AtariWrapper" where
  "AtariWrapper_init raw_meanings raw_shape env noop_max' frame_skip region' screen_size
     override_num_noops' terminal_on_life_loss clip_reward =
     (let get_action_meanings = (\<lambda>env. raw_meanings (unwrapped env)) in
      case NoopResetEnv_init get_action_meanings (Unwrapped env) noop_max' override_num_noops' of
        Inl x \<Rightarrow> Inl x
      | Inr noop \<Rightarrow>
     (let env1 = Noop noop;
          env2 = MaxAndSkip (MaxAndSkipEnv_init (observation_shape raw_shape) env1 frame_skip);
          env3 = (if terminal_on_life_loss then EpisodicLife (EpisodicLifeEnv_init env2)
                  else env2)
      in
      case (if ''FIRE'' \<in> set (get_action_meanings env3) then
              (case FireResetEnv_init get_action_meanings env3 of
                 Inl x \<Rightarrow> Inl x
               | Inr fire \<Rightarrow> Inr (FireReset fire))
            else Inr env3) of
        Inl x \<Rightarrow> Inl x
      | Inr env4 \<Rightarrow>
     (case WarpFrame_init env4 screen_size screen_size region' of
        Inl x \<Rightarrow> Inl x
      | Inr warp \<Rightarrow>
          let env5 = Warp warp;
              env6 = (if clip_reward then ClipReward (ClipRewardEnv_init env5) else env5)
          in Inr (AtariWrapper env6))))"

section \<open>Notions used to state the properties\<close>

text \<open>The components of what a step returns.\<close>

fun obs_of :: "'p list \<times> 'r \<times> bool \<times> 'i \<Rightarrow> 'p list" where
  "obs_of (obs, reward, done, info) = obs"

fun reward_of :: "'p list \<times> 'r \<times> bool \<times> 'i \<Rightarrow> 'r" where
  "reward_of (obs, reward, done, info) = reward"

fun done_of :: "'p list \<times> 'r \<times> bool \<times> 'i \<Rightarrow> bool" where
  "done_of (obs, reward, done, info) = done"

fun info_of :: "'p list \<times> 'r \<times> bool \<times> 'i \<Rightarrow> 'i" where
  "info_of (obs, reward, done, info) = info"

text \<open>
  \<open>inner_steps G action n env\<close> runs \<open>n\<close> steps with the same action on the
  environment, one after the other, and returns what each step returned and the
  environment after the last one.
\<close>

fun inner_steps ::
  "('e, 'k, 'p, 'r, 'i) gym_env \<Rightarrow> int \<Rightarrow> nat \<Rightarrow> 'e \<Rightarrow>
   error + (('p list \<times> 'r \<times> bool \<times> 'i) list \<times> 'e)" where
  "inner_steps G action 0 env = Inr ([], env)"
| "inner_steps G action (Suc n) env =
     (case step G action env of
        Inl x \<Rightarrow> Inl x
      | Inr (r, env1) \<Rightarrow>
          (case inner_steps G action n env1 of
             Inl x \<Rightarrow> Inl x
           | Inr (rs, env2) \<Rightarrow> Inr (r # rs, env2)))"

text \<open>The actions of the steps in a log, in the order of the calls.\<close>

fun actions :: "('k, 'p, 'r, 'i) call list \<Rightarrow> int list" where
  "actions [] = []"
| "actions (Step action r # cs) = action # actions cs"
| "actions (c # cs) = actions cs"

text \<open>The observation that the last step in a log returned.\<close>

fun last_step_obs :: "('k, 'p, 'r, 'i) call list \<Rightarrow> 'p list option" where
  "last_step_obs [] = None"
| "last_step_obs (Step action r # cs) =
     (case last_step_obs cs of None \<Rightarrow> Some (obs_of r) | Some obs \<Rightarrow> Some obs)"
| "last_step_obs (c # cs) = last_step_obs cs"

text \<open>
  \<open>from_last_call obs cs\<close>, for a log \<open>cs\<close> with the latest call first: \<open>obs\<close> is
  the observation of the latest call, which is a step that did not end the
  episode, or a reset that comes right after a step that ended it.
\<close>

fun from_last_call :: "'p list \<Rightarrow> ('k, 'p, 'r, 'i) call list \<Rightarrow> bool" where
  "from_last_call obs (Step action r # cs) = (\<not> done_of r \<and> obs = obs_of r)"
| "from_last_call obs (Reset kwargs obs' # c # cs) = (obs = obs' \<and> is_done_step c)"
| "from_last_call obs cs = False"

text \<open>
  \<open>noop_log kwargs action cs\<close>, for a log \<open>cs\<close> in the order of the calls: the log
  is a sequence of steps with the action; every step that ended the episode is
  followed at once, before the next step, by a reset with \<open>kwargs\<close>; there is no
  other call.
\<close>

fun noop_log :: "'k \<Rightarrow> int \<Rightarrow> ('k, 'p, 'r, 'i) call list \<Rightarrow> bool" where
  "noop_log kwargs action [] = True"
| "noop_log kwargs action (Step a r # Reset k obs # cs) =
     (a = action \<and> done_of r \<and> k = kwargs \<and> noop_log kwargs action cs)"
| "noop_log kwargs action (Step a r # cs) =
     (a = action \<and> \<not> done_of r \<and> noop_log kwargs action cs)"
| "noop_log kwargs action (c # cs) = False"

text \<open>An environment whose \<open>reset\<close> and \<open>step\<close> never raise.\<close>

definition infallible :: "('e, 'k, 'p, 'r, 'i) gym_env \<Rightarrow> bool" where
  "infallible G \<longleftrightarrow>
     (\<forall>kwargs env. \<exists>obs env'. reset G kwargs env = Inr (obs, env')) \<and>
     (\<forall>action env. \<exists>r env'. step G action env = Inr (r, env'))"

text \<open>
  The contract of \<^verbatim>\<open>RandomState.randint(low, high)\<close>: for \<open>low < high\<close> it returns
  an integer \<open>n\<close> with \<open>low \<le> n < high\<close>.
\<close>

definition randint_ok :: "('e, 'k, 'p, 'r, 'i) gym_env \<Rightarrow> bool" where
  "randint_ok G \<longleftrightarrow>
     (\<forall>low high env. low < high \<longrightarrow>
        (\<exists>n env'. randint G low high env = Inr (n, env') \<and> low \<le> n \<and> n < high))"

section \<open>A scripted environment\<close>

text \<open>
  A small game to run the wrappers on. Its state is the number of frames played
  in the episode, the lives left, and the number of draws made from its random
  generator. Action 7 loses a life; every other action only advances the frame.
  The episode is over when no life is left or when \<open>limit\<close> frames were played.
  An observation has two pixels: the frame number and the lives. The reward of a
  step is its action.
\<close>

record game =
  frames :: int
  lives_left :: int
  draws :: int

definition game_step ::
  "int \<Rightarrow> int \<Rightarrow> game \<Rightarrow> error + ((int list \<times> int \<times> bool \<times> unit) \<times> game)" where
  "game_step limit action g =
     (let f = frames g + 1;
          l = (if action = 7 then lives_left g - 1 else lives_left g)
      in Inr (([f, l], action, l \<le> 0 \<or> limit \<le> f, ()),
              g\<lparr>frames := f, lives_left := l\<rparr>))"

definition game_reset :: "unit \<Rightarrow> game \<Rightarrow> error + (int list \<times> game)" where
  "game_reset kwargs g = Inr ([0, 3], g\<lparr>frames := 0, lives_left := 3\<rparr>)"

definition game_randint :: "int \<Rightarrow> int \<Rightarrow> game \<Rightarrow> error + (int \<times> game)" where
  "game_randint low high g =
     (if low < high then Inr (low + draws g mod (high - low), g\<lparr>draws := draws g + 1\<rparr>)
      else Inl (ValueError ''low >= high''))"

definition game_env :: "int \<Rightarrow> (game, unit, int, int, unit) gym_env" where
  "game_env limit =
     \<lparr> reset = game_reset, step = game_step limit,
       ale_lives = lives_left, randint = game_randint \<rparr>"

definition game_meanings :: "game \<Rightarrow> string list" where
  "game_meanings g = [''NOOP'', ''FIRE'', ''UP'', ''DOWN'']"

definition game_shape :: "game \<Rightarrow> nat list" where
  "game_shape g = [2]"

definition new_game :: game where
  "new_game = \<lparr> frames = 0, lives_left = 3, draws = 0 \<rparr>"

section \<open>Facts about the interface and the scripted environment\<close>

declare MaxAndSkipEnv_loop.simps [simp del]

lemma traced_simps [simp]:
  "reset (traced G) kwargs (env, t) =
     (case reset G kwargs env of Inl x \<Rightarrow> Inl x
      | Inr (obs, env') \<Rightarrow> Inr (obs, (env', t @ [Reset kwargs obs])))"
  "step (traced G) action (env, t) =
     (case step G action env of Inl x \<Rightarrow> Inl x
      | Inr (r, env') \<Rightarrow> Inr (r, (env', t @ [Step action r])))"
  "ale_lives (traced G) (env, t) = ale_lives G env"
  "randint (traced G) low high (env, t) =
     (case randint G low high env of Inl x \<Rightarrow> Inl x
      | Inr (n, env') \<Rightarrow> Inr (n, (env', t @ [Randint low high n])))"
  by (simp_all add: traced_def)

lemma game_env_simps [simp]:
  "reset (game_env limit) = game_reset"
  "step (game_env limit) = game_step limit"
  "ale_lives (game_env limit) = lives_left"
  "randint (game_env limit) = game_randint"
  by (simp_all add: game_env_def)

lemma game_infallible: "infallible (game_env limit)"
  by (simp add: infallible_def game_step_def game_reset_def Let_def)

lemma game_randint_ok: "randint_ok (game_env limit)"
proof -
  have "low + d mod (high - low) < high" "0 \<le> d mod (high - low)"
    if "low < high" for low high d :: int
  proof -
    from that have "0 < high - low" by simp
    then have "d mod (high - low) < high - low" "0 \<le> d mod (high - low)"
      by (rule pos_mod_bound, rule pos_mod_sign)
    then show "low + d mod (high - low) < high" "0 \<le> d mod (high - low)" by simp_all
  qed
  then show ?thesis
    by (simp add: randint_ok_def game_randint_def)
qed

section \<open>Properties of EpisodicLifeEnv\<close>

text \<open>
  C1. EpisodicLifeEnv.step: whatever the inner step returns, the wrapper stores
  the inner done flag in \<open>was_real_done\<close>, reads the current life count, returns
  done forced to true exactly when \<open>0 < current lives < stored lives\<close> (and the
  inner done otherwise), stores the current life count in \<open>lives\<close> in every case,
  and returns the inner observation, reward and info as they are.
\<close>

theorem EpisodicLifeEnv_step_spec:
  assumes "step G action env = Inr ((obs, reward, done, info), env')"
  shows "EpisodicLifeEnv_step G action (EpisodicLifeEnv env stored wrd) =
           Inr ((obs, reward,
                 (if 0 < ale_lives G env' \<and> ale_lives G env' < stored then True else done),
                 info),
                EpisodicLifeEnv env' (ale_lives G env') done)"
  using assms by (simp add: EpisodicLifeEnv_step_def Let_def)

theorem EpisodicLifeEnv_step_spec_witness:
  "step (game_env 100) 7 new_game =
     Inr (([1, 2], 7, False, ()), \<lparr> frames = 1, lives_left = 2, draws = 0 \<rparr>)
   \<and> EpisodicLifeEnv_step (game_env 100) 7 (EpisodicLifeEnv new_game 3 True) =
     Inr (([1, 2], 7, True, ()),
          EpisodicLifeEnv \<lparr> frames = 1, lives_left = 2, draws = 0 \<rparr> 2 False)"
proof -
  have h: "step (game_env 100) 7 new_game =
     Inr (([1, 2], 7, False, ()), \<lparr> frames = 1, lives_left = 2, draws = 0 \<rparr>)"
    by (simp add: game_env_def game_step_def new_game_def)
  show ?thesis
    using h EpisodicLifeEnv_step_spec [OF h, of 3 True]
    by (simp add: game_env_def)
qed

text \<open>
  C2. EpisodicLifeEnv.reset: when \<open>was_real_done\<close> is true, reset makes exactly one
  call on the inner environment, its reset, and returns the observation of that
  call; when \<open>was_real_done\<close> is false, it makes exactly one call, a step with
  action 0, and no inner reset, and returns the observation of that step. In both
  cases the stored \<open>lives\<close> is the life count read after the call.
\<close>

theorem EpisodicLifeEnv_reset_spec:
  "(wrd \<longrightarrow> reset G kwargs env = Inr (obs, env') \<longrightarrow>
      EpisodicLifeEnv_reset (traced G) kwargs (EpisodicLifeEnv (env, t) stored wrd) =
        Inr (obs, EpisodicLifeEnv (env', t @ [Reset kwargs obs]) (ale_lives G env') wrd))
   \<and> (\<not> wrd \<longrightarrow> step G 0 env = Inr ((obs, reward, done, info), env') \<longrightarrow>
      EpisodicLifeEnv_reset (traced G) kwargs (EpisodicLifeEnv (env, t) stored wrd) =
        Inr (obs, EpisodicLifeEnv (env', t @ [Step 0 (obs, reward, done, info)])
                    (ale_lives G env') wrd))"
  by (simp add: EpisodicLifeEnv_reset_def)

theorem EpisodicLifeEnv_reset_spec_witness:
  "reset (game_env 100) () \<lparr> frames = 9, lives_left = 0, draws = 0 \<rparr> =
     Inr ([0, 3], \<lparr> frames = 0, lives_left = 3, draws = 0 \<rparr>)
   \<and> EpisodicLifeEnv_reset (traced (game_env 100)) ()
       (EpisodicLifeEnv (\<lparr> frames = 9, lives_left = 0, draws = 0 \<rparr>, []) 0 True) =
     Inr ([0, 3], EpisodicLifeEnv (\<lparr> frames = 0, lives_left = 3, draws = 0 \<rparr>,
                                   [Reset () [0, 3]]) 3 True)
   \<and> step (game_env 100) 0 \<lparr> frames = 9, lives_left = 2, draws = 0 \<rparr> =
     Inr (([10, 2], 0, False, ()), \<lparr> frames = 10, lives_left = 2, draws = 0 \<rparr>)
   \<and> EpisodicLifeEnv_reset (traced (game_env 100)) ()
       (EpisodicLifeEnv (\<lparr> frames = 9, lives_left = 2, draws = 0 \<rparr>, []) 2 False) =
     Inr ([10, 2], EpisodicLifeEnv (\<lparr> frames = 10, lives_left = 2, draws = 0 \<rparr>,
                                    [Step 0 ([10, 2], 0, False, ())]) 2 False)"
proof -
  have h1: "reset (game_env 100) () \<lparr> frames = 9, lives_left = 0, draws = 0 \<rparr> =
     Inr ([0, 3], \<lparr> frames = 0, lives_left = 3, draws = 0 \<rparr>)"
    by (simp add: game_reset_def)
  have h2: "step (game_env 100) 0 \<lparr> frames = 9, lives_left = 2, draws = 0 \<rparr> =
     Inr (([10, 2], 0, False, ()), \<lparr> frames = 10, lives_left = 2, draws = 0 \<rparr>)"
    by (simp add: game_step_def)
  from EpisodicLifeEnv_reset_spec [of True "game_env 100" "()"
      "\<lparr> frames = 9, lives_left = 0, draws = 0 \<rparr>" "[0, 3]"
      "\<lparr> frames = 0, lives_left = 3, draws = 0 \<rparr>" "[]" 0] h1
  have a: "EpisodicLifeEnv_reset (traced (game_env 100)) ()
       (EpisodicLifeEnv (\<lparr> frames = 9, lives_left = 0, draws = 0 \<rparr>, []) 0 True) =
     Inr ([0, 3], EpisodicLifeEnv (\<lparr> frames = 0, lives_left = 3, draws = 0 \<rparr>,
                                   [Reset () [0, 3]]) 3 True)"
    by simp
  from EpisodicLifeEnv_reset_spec [of False "game_env 100" "()"
      "\<lparr> frames = 9, lives_left = 2, draws = 0 \<rparr>" "[10, 2]"
      "\<lparr> frames = 10, lives_left = 2, draws = 0 \<rparr>" "[]" 2 0 False "()"] h2
  have b: "EpisodicLifeEnv_reset (traced (game_env 100)) ()
       (EpisodicLifeEnv (\<lparr> frames = 9, lives_left = 2, draws = 0 \<rparr>, []) 2 False) =
     Inr ([10, 2], EpisodicLifeEnv (\<lparr> frames = 10, lives_left = 2, draws = 0 \<rparr>,
                                    [Step 0 ([10, 2], 0, False, ())]) 2 False)"
    by simp
  from h1 h2 a b show ?thesis by simp
qed

section \<open>Properties of MaxAndSkipEnv\<close>

text \<open>
  The run of the inner environment that a call of \<open>step\<close> makes is described by
  \<open>inner_steps\<close>: \<open>n\<close> steps with the action, where \<open>n\<close> is the skip count, or
  less when step \<open>n\<close> is the first one that returns done.
\<close>

lemma inner_steps_length:
  "inner_steps G action n env = Inr (rs, env') \<Longrightarrow> length rs = n"
  by (induction n arbitrary: env rs) (auto split: sum.splits)

lemma inner_steps_traced:
  "inner_steps (traced G) action n (env, t) =
     (case inner_steps G action n env of
        Inl x \<Rightarrow> Inl x
      | Inr (rs, env') \<Rightarrow> Inr (rs, (env', t @ map (Step action) rs)))"
  by (induction n arbitrary: env t) (auto split: sum.splits)

lemma slot_shift:
  "(if int (Suc i) \<le> c \<and> c < int (Suc i) + int n
      then obs_of (rs' ! nat (c - int (Suc i)))
      else (if int i = c then obs_of r else old)) =
   (if int i \<le> c \<and> c < int i + int (Suc n)
      then obs_of ((r # rs') ! nat (c - int i)) else old)"
proof -
  have "0 < k \<Longrightarrow> (r # rs') ! nat k = rs' ! nat (k - 1)" for k :: int
    by (simp add: nth_Cons' nat_diff_distrib)
  from this [of "c - int i"] show ?thesis
    by (auto simp: algebra_simps)
qed

lemma MaxAndSkipEnv_loop_run:
  assumes "inner_steps G action n env = Inr (rs, env')"
    and "int i + int n \<le> sk"
    and "\<forall>r \<in> set (butlast rs). \<not> done_of r"
    and "int i + int n = sk \<or> (rs \<noteq> [] \<and> done_of (last rs))"
    and "int i \<le> sk - 2 \<and> sk - 2 < int i + int n \<longrightarrow>
           length (obs_of (rs ! nat (sk - 2 - int i))) = length (fst buf)"
    and "int i \<le> sk - 1 \<and> sk - 1 < int i + int n \<longrightarrow>
           length (obs_of (rs ! nat (sk - 1 - int i))) = length (snd buf)"
  shows "MaxAndSkipEnv_loop G action sk i env buf tot di =
           Inr (((if int i \<le> sk - 2 \<and> sk - 2 < int i + int n
                  then obs_of (rs ! nat (sk - 2 - int i)) else fst buf),
                 (if int i \<le> sk - 1 \<and> sk - 1 < int i + int n
                  then obs_of (rs ! nat (sk - 1 - int i)) else snd buf)),
                foldl (+) tot (map reward_of rs),
                (if rs = [] then di else Some (done_of (last rs), info_of (last rs))),
                env')"
  using assms
proof (induction n arbitrary: i env buf tot di rs)
  case 0
  then show ?case
    by (subst MaxAndSkipEnv_loop.simps) auto
next
  case (Suc n)
  from Suc.prems(1) obtain r env1 rs' where
    st: "step G action env = Inr (r, env1)" and
    run: "inner_steps G action n env1 = Inr (rs', env')" and
    rs: "rs = r # rs'"
    by (auto split: sum.splits)
  obtain obs reward dn info where r: "r = (obs, reward, dn, info)"
    by (cases r) auto
  have len: "length rs' = n" using run by (rule inner_steps_length)
  have lt: "int i < sk" using Suc.prems(2) by simp
  have shp: "int i = sk - 2 \<longrightarrow> length obs = length (fst buf)"
            "int i = sk - 1 \<longrightarrow> length obs = length (snd buf)"
    using Suc.prems(5,6) rs r by auto
  have nthS: "0 < k \<Longrightarrow> rs ! nat k = rs' ! nat (k - 1)" for k :: int
    using rs by (simp add: nth_Cons' nat_diff_distrib)
  show ?case
  proof (cases dn)
    case True
    have "rs' = []"
    proof (rule ccontr)
      assume "rs' \<noteq> []"
      then have "r \<in> set (butlast rs)" using rs by simp
      with Suc.prems(3) True r show False by auto
    qed
    with len have n0: "n = 0" by simp
    show ?thesis
      using True st r rs \<open>rs' = []\<close> n0 run lt shp
      by (subst MaxAndSkipEnv_loop.simps) (auto simp: store_frame_def)
  next
    case False
    let ?buf2 = "((if int i = sk - 2 then obs else fst buf),
                  (if int i = sk - 1 then obs else snd buf))"
    have ih: "MaxAndSkipEnv_loop G action sk (Suc i) env1 ?buf2 (tot + reward)
                (Some (dn, info)) =
           Inr (((if int (Suc i) \<le> sk - 2 \<and> sk - 2 < int (Suc i) + int n
                  then obs_of (rs' ! nat (sk - 2 - int (Suc i))) else fst ?buf2),
                 (if int (Suc i) \<le> sk - 1 \<and> sk - 1 < int (Suc i) + int n
                  then obs_of (rs' ! nat (sk - 1 - int (Suc i))) else snd ?buf2)),
                foldl (+) (tot + reward) (map reward_of rs'),
                (if rs' = [] then Some (dn, info)
                 else Some (done_of (last rs'), info_of (last rs'))),
                env')"
    proof (rule Suc.IH [OF run])
      show "int (Suc i) + int n \<le> sk" using Suc.prems(2) by simp
      show "\<forall>r\<in>set (butlast rs'). \<not> done_of r" using Suc.prems(3) rs
        by (auto split: if_splits)
      show "int (Suc i) + int n = sk \<or> rs' \<noteq> [] \<and> done_of (last rs')"
        using Suc.prems(4) rs r False by (cases "rs' = []") auto
      show "int (Suc i) \<le> sk - 2 \<and> sk - 2 < int (Suc i) + int n \<longrightarrow>
              length (obs_of (rs' ! nat (sk - 2 - int (Suc i)))) = length (fst ?buf2)"
        using Suc.prems(5) nthS [of "sk - 2 - int i"] by (auto simp: algebra_simps)
      show "int (Suc i) \<le> sk - 1 \<and> sk - 1 < int (Suc i) + int n \<longrightarrow>
              length (obs_of (rs' ! nat (sk - 1 - int (Suc i)))) = length (snd ?buf2)"
        using Suc.prems(6) nthS [of "sk - 1 - int i"] by (auto simp: algebra_simps)
    qed
    have unf: "MaxAndSkipEnv_loop G action sk i env buf tot di =
                 MaxAndSkipEnv_loop G action sk (Suc i) env1 ?buf2 (tot + reward)
                   (Some (dn, info))"
      using False st r lt shp
      by (subst MaxAndSkipEnv_loop.simps) (simp add: store_frame_def)
    have s0: "(if int (Suc i) \<le> sk - 2 \<and> sk - 2 < int (Suc i) + int n
                  then obs_of (rs' ! nat (sk - 2 - int (Suc i))) else fst ?buf2) =
              (if int i \<le> sk - 2 \<and> sk - 2 < int i + int (Suc n)
                  then obs_of (rs ! nat (sk - 2 - int i)) else fst buf)"
      by (simp only: fst_conv rs r
            slot_shift [of i "sk - 2" n rs' r "fst buf", unfolded r obs_of.simps])
    have s1: "(if int (Suc i) \<le> sk - 1 \<and> sk - 1 < int (Suc i) + int n
                  then obs_of (rs' ! nat (sk - 1 - int (Suc i))) else snd ?buf2) =
              (if int i \<le> sk - 1 \<and> sk - 1 < int i + int (Suc n)
                  then obs_of (rs ! nat (sk - 1 - int i)) else snd buf)"
      by (simp only: snd_conv rs r
            slot_shift [of i "sk - 1" n rs' r "snd buf", unfolded r obs_of.simps])
    have rw: "foldl (+) (tot + reward) (map reward_of rs') = foldl (+) tot (map reward_of rs)"
      using rs r by simp
    have la: "(if rs' = [] then Some (dn, info)
                 else Some (done_of (last rs'), info_of (last rs'))) =
              (if rs = [] then di else Some (done_of (last rs), info_of (last rs)))"
      using rs r by simp
    show ?thesis
      unfolding unf ih s0 s1 rw la ..
  qed
qed

lemma MaxAndSkipEnv_step_run:
  assumes run: "inner_steps G action n env = Inr (rs, env')"
    and n: "0 < n" "int n \<le> sk"
    and nodone: "\<forall>r \<in> set (butlast rs). \<not> done_of r"
    and stop: "int n = sk \<or> done_of (last rs)"
    and shape0: "2 \<le> sk \<and> sk - 2 < int n \<longrightarrow>
                   length (obs_of (rs ! nat (sk - 2))) = length (fst buf)"
    and shape1: "sk - 1 < int n \<longrightarrow> length (obs_of (rs ! nat (sk - 1))) = length (snd buf)"
  shows "MaxAndSkipEnv_step G action (MaxAndSkipEnv env buf sk) =
           Inr ((max_axis0
                   ((if 2 \<le> sk \<and> sk - 2 < int n then obs_of (rs ! nat (sk - 2)) else fst buf),
                    (if sk - 1 < int n then obs_of (rs ! nat (sk - 1)) else snd buf)),
                 foldl (+) 0 (map reward_of rs), done_of (last rs), info_of (last rs)),
                MaxAndSkipEnv env'
                  ((if 2 \<le> sk \<and> sk - 2 < int n then obs_of (rs ! nat (sk - 2)) else fst buf),
                   (if sk - 1 < int n then obs_of (rs ! nat (sk - 1)) else snd buf))
                  sk)"
proof -
  have len: "length rs = n" using run by (rule inner_steps_length)
  with n have ne: "rs \<noteq> []" by auto
  have "MaxAndSkipEnv_loop G action sk 0 env buf 0 None =
           Inr (((if int 0 \<le> sk - 2 \<and> sk - 2 < int 0 + int n
                  then obs_of (rs ! nat (sk - 2 - int 0)) else fst buf),
                 (if int 0 \<le> sk - 1 \<and> sk - 1 < int 0 + int n
                  then obs_of (rs ! nat (sk - 1 - int 0)) else snd buf)),
                foldl (+) 0 (map reward_of rs),
                (if rs = [] then None else Some (done_of (last rs), info_of (last rs))),
                env')"
    using run _ nodone
  proof (rule MaxAndSkipEnv_loop_run)
    show "int 0 + int n \<le> sk" using n by simp
    show "int 0 + int n = sk \<or> rs \<noteq> [] \<and> done_of (last rs)" using stop ne by simp
    show "int 0 \<le> sk - 2 \<and> sk - 2 < int 0 + int n \<longrightarrow>
            length (obs_of (rs ! nat (sk - 2 - int 0))) = length (fst buf)"
      using shape0 by simp
    show "int 0 \<le> sk - 1 \<and> sk - 1 < int 0 + int n \<longrightarrow>
            length (obs_of (rs ! nat (sk - 1 - int 0))) = length (snd buf)"
      using shape1 by simp
  qed
  moreover have "0 \<le> sk - 1" using n by simp
  ultimately show ?thesis
    using ne by (simp add: MaxAndSkipEnv_step_def Let_def)
qed

text \<open>
  C3. MaxAndSkipEnv.step repeats the action on the inner environment: \<open>skip\<close>
  steps, or fewer when a step returns done, which stops the loop at the first
  such step; the log shows these steps and no other call. The returned reward is
  the sum \<open>0 + r\<^sub>0 + r\<^sub>1 + \<dots>\<close> of the rewards of the steps taken, and the returned
  done and info are those of the last step. When all \<open>skip\<close> steps ran (and
  \<open>skip\<close> is at least 2, so that both iterations exist), the returned observation
  is the element-wise maximum of the frames of iterations \<open>skip - 2\<close> and
  \<open>skip - 1\<close>. A frame stored in the buffer has the shape of the buffer.
  MaxAndSkipEnv.reset makes one call, the inner reset, and returns its
  observation; the buffer is left as it was.
\<close>

theorem MaxAndSkipEnv_step_spec:
  "(inner_steps G action n env = Inr (rs, env') \<and> 0 < n \<and> int n \<le> sk \<and>
    (\<forall>r \<in> set (butlast rs). \<not> done_of r) \<and> (int n = sk \<or> done_of (last rs)) \<and>
    (2 \<le> sk \<and> sk - 2 < int n \<longrightarrow>
       length (obs_of (rs ! nat (sk - 2))) = length (fst buf)) \<and>
    (sk - 1 < int n \<longrightarrow> length (obs_of (rs ! nat (sk - 1))) = length (snd buf)) \<longrightarrow>
    (\<exists>obs buf'.
       MaxAndSkipEnv_step (traced G) action (MaxAndSkipEnv (env, t) buf sk) =
         Inr ((obs, foldl (+) 0 (map reward_of rs), done_of (last rs), info_of (last rs)),
              MaxAndSkipEnv (env', t @ map (Step action) rs) buf' sk) \<and>
       (int n = sk \<and> 2 \<le> sk \<longrightarrow>
          obs = map2 max (obs_of (rs ! (n - 2))) (obs_of (rs ! (n - 1))))))
   \<and> (reset G kwargs env = Inr (obs0, env0) \<longrightarrow>
        MaxAndSkipEnv_reset (traced G) kwargs (MaxAndSkipEnv (env, t) buf sk) =
          Inr (obs0, MaxAndSkipEnv (env0, t @ [Reset kwargs obs0]) buf sk))"
proof (intro conjI impI)
  assume a: "inner_steps G action n env = Inr (rs, env') \<and> 0 < n \<and> int n \<le> sk \<and>
    (\<forall>r \<in> set (butlast rs). \<not> done_of r) \<and> (int n = sk \<or> done_of (last rs)) \<and>
    (2 \<le> sk \<and> sk - 2 < int n \<longrightarrow>
       length (obs_of (rs ! nat (sk - 2))) = length (fst buf)) \<and>
    (sk - 1 < int n \<longrightarrow> length (obs_of (rs ! nat (sk - 1))) = length (snd buf))"
  then have run: "inner_steps (traced G) action n (env, t) =
                    Inr (rs, (env', t @ map (Step action) rs))"
    by (simp add: inner_steps_traced)
  have st: "MaxAndSkipEnv_step (traced G) action (MaxAndSkipEnv (env, t) buf sk) =
           Inr ((max_axis0
                   ((if 2 \<le> sk \<and> sk - 2 < int n then obs_of (rs ! nat (sk - 2)) else fst buf),
                    (if sk - 1 < int n then obs_of (rs ! nat (sk - 1)) else snd buf)),
                 foldl (+) 0 (map reward_of rs), done_of (last rs), info_of (last rs)),
                MaxAndSkipEnv (env', t @ map (Step action) rs)
                  ((if 2 \<le> sk \<and> sk - 2 < int n then obs_of (rs ! nat (sk - 2)) else fst buf),
                   (if sk - 1 < int n then obs_of (rs ! nat (sk - 1)) else snd buf))
                  sk)"
  proof (rule MaxAndSkipEnv_step_run [OF run])
    show "0 < n" "int n \<le> sk" "int n = sk \<or> done_of (last rs)"
      using a by blast+
    show "\<forall>r \<in> set (butlast rs). \<not> done_of r" using a by blast
    show "2 \<le> sk \<and> sk - 2 < int n \<longrightarrow>
            length (obs_of (rs ! nat (sk - 2))) = length (fst buf)" using a by blast
    show "sk - 1 < int n \<longrightarrow> length (obs_of (rs ! nat (sk - 1))) = length (snd buf)"
      using a by blast
  qed
  have idx: "int n = sk \<Longrightarrow> 2 \<le> sk \<Longrightarrow> nat (sk - 2) = n - 2 \<and> nat (sk - 1) = n - 1"
    by auto
  show "\<exists>obs buf'.
       MaxAndSkipEnv_step (traced G) action (MaxAndSkipEnv (env, t) buf sk) =
         Inr ((obs, foldl (+) 0 (map reward_of rs), done_of (last rs), info_of (last rs)),
              MaxAndSkipEnv (env', t @ map (Step action) rs) buf' sk) \<and>
       (int n = sk \<and> 2 \<le> sk \<longrightarrow>
          obs = map2 max (obs_of (rs ! (n - 2))) (obs_of (rs ! (n - 1))))"
    unfolding st using idx by (auto simp: max_axis0_def)
next
  assume "reset G kwargs env = Inr (obs0, env0)"
  then show "MaxAndSkipEnv_reset (traced G) kwargs (MaxAndSkipEnv (env, t) buf sk) =
          Inr (obs0, MaxAndSkipEnv (env0, t @ [Reset kwargs obs0]) buf sk)"
    by (simp add: MaxAndSkipEnv_reset_def)
qed

theorem MaxAndSkipEnv_step_spec_witness:
  "inner_steps (game_env 100) 3 4 new_game =
     Inr ([([1, 3], 3, False, ()), ([2, 3], 3, False, ()),
           ([3, 3], 3, False, ()), ([4, 3], 3, False, ())],
          \<lparr> frames = 4, lives_left = 3, draws = 0 \<rparr>)
   \<and> (\<exists>buf'. MaxAndSkipEnv_step (traced (game_env 100)) 3
                (MaxAndSkipEnv (new_game, []) ([0, 0], [0, 0]) 4) =
        Inr (([4, 3], 12, False, ()),
             MaxAndSkipEnv (\<lparr> frames = 4, lives_left = 3, draws = 0 \<rparr>,
                            [Step 3 ([1, 3], 3, False, ()), Step 3 ([2, 3], 3, False, ()),
                             Step 3 ([3, 3], 3, False, ()), Step 3 ([4, 3], 3, False, ())])
                           buf' 4))
   \<and> reset (game_env 100) () new_game = Inr ([0, 3], new_game)
   \<and> MaxAndSkipEnv_reset (traced (game_env 100)) ()
        (MaxAndSkipEnv (new_game, []) ([0, 0], [0, 0]) 4) =
      Inr ([0, 3], MaxAndSkipEnv (new_game, [Reset () [0, 3]]) ([0, 0], [0, 0]) 4)"
proof -
  let ?rs = "[([1, 3], 3, False, ()), ([2, 3], 3, False, ()),
              ([3, 3], 3, False, ()), ([4, 3], 3, False, ())] :: (int list \<times> int \<times> bool \<times> unit) list"
  have run: "inner_steps (game_env 100) 3 4 new_game =
               Inr (?rs, \<lparr> frames = 4, lives_left = 3, draws = 0 \<rparr>)"
    by (simp add: numeral_eq_Suc game_step_def new_game_def)
  have rst: "reset (game_env 100) () new_game = Inr ([0, 3], new_game)"
    by (simp add: game_reset_def new_game_def)
  have hyp: "inner_steps (game_env 100) 3 4 new_game =
               Inr (?rs, \<lparr> frames = 4, lives_left = 3, draws = 0 \<rparr>) \<and> 0 < (4::nat) \<and>
             int 4 \<le> 4 \<and> (\<forall>r \<in> set (butlast ?rs). \<not> done_of r) \<and>
             (int 4 = 4 \<or> done_of (last ?rs)) \<and>
             (2 \<le> (4::int) \<and> (4::int) - 2 < int 4 \<longrightarrow>
                length (obs_of (?rs ! nat (4 - 2))) = length (fst ([0, 0], [0, 0] :: int list))) \<and>
             ((4::int) - 1 < int 4 \<longrightarrow>
                length (obs_of (?rs ! nat (4 - 1))) = length (snd ([0, 0] :: int list, [0, 0])))"
    using run by (simp add: numeral_eq_Suc)
  from MaxAndSkipEnv_step_spec [of "game_env 100" 3 4 new_game ?rs
      "\<lparr> frames = 4, lives_left = 3, draws = 0 \<rparr>" 4 "([0, 0], [0, 0])" "[]" "()" "[0, 3]" new_game]
    hyp rst
  show ?thesis
    by (simp add: numeral_eq_Suc)
qed

text \<open>
  C4. The buffer of MaxAndSkipEnv is written only at the iterations \<open>skip - 2\<close>
  (row 0) and \<open>skip - 1\<close> (row 1) of the configured skip count: after a call of
  \<open>step\<close> that ran \<open>n\<close> iterations, row 0 holds the frame of iteration \<open>skip - 2\<close>
  if that iteration ran and its former content otherwise, and row 1 holds the
  frame of iteration \<open>skip - 1\<close> if that iteration ran and its former content
  otherwise. A call that ends before iteration \<open>skip - 2\<close> leaves the buffer as it
  was, and the observation it returns is the element-wise maximum of the two rows
  left by earlier calls (or by the constructor, which fills them with zeros).
\<close>

theorem MaxAndSkipEnv_buffer_spec:
  assumes run: "inner_steps G action n env = Inr (rs, env')"
    and n: "0 < n" "int n \<le> sk"
    and nodone: "\<forall>r \<in> set (butlast rs). \<not> done_of r"
    and stop: "int n = sk \<or> done_of (last rs)"
    and shape0: "2 \<le> sk \<and> sk - 2 < int n \<longrightarrow>
                   length (obs_of (rs ! nat (sk - 2))) = length (fst buf)"
    and shape1: "sk - 1 < int n \<longrightarrow> length (obs_of (rs ! nat (sk - 1))) = length (snd buf)"
  shows "\<exists>buf'.
           MaxAndSkipEnv_step G action (MaxAndSkipEnv env buf sk) =
             Inr ((max_axis0 buf', foldl (+) 0 (map reward_of rs),
                   done_of (last rs), info_of (last rs)),
                  MaxAndSkipEnv env' buf' sk) \<and>
           fst buf' = (if 2 \<le> sk \<and> sk - 2 < int n then obs_of (rs ! nat (sk - 2))
                       else fst buf) \<and>
           snd buf' = (if sk - 1 < int n then obs_of (rs ! nat (sk - 1)) else snd buf) \<and>
           (int n < sk - 1 \<longrightarrow> buf' = buf)"
  unfolding MaxAndSkipEnv_step_run [OF assms] by (auto simp: prod_eq_iff)

theorem MaxAndSkipEnv_buffer_spec_witness:
  "inner_steps (game_env 100) 7 1 \<lparr> frames = 5, lives_left = 1, draws = 0 \<rparr> =
     Inr ([([6, 0], 7, True, ())], \<lparr> frames = 6, lives_left = 0, draws = 0 \<rparr>)
   \<and> MaxAndSkipEnv_step (game_env 100) 7
        (MaxAndSkipEnv_init game_shape \<lparr> frames = 5, lives_left = 1, draws = 0 \<rparr> 4) =
      Inr (([0, 0], 7, True, ()),
           MaxAndSkipEnv \<lparr> frames = 6, lives_left = 0, draws = 0 \<rparr> ([0, 0], [0, 0]) 4)"
proof -
  let ?g = "\<lparr> frames = 5, lives_left = 1, draws = 0 \<rparr>"
  let ?rs = "[([6, 0], 7, True, ())] :: (int list \<times> int \<times> bool \<times> unit) list"
  have run: "inner_steps (game_env 100) 7 1 ?g =
               Inr (?rs, \<lparr> frames = 6, lives_left = 0, draws = 0 \<rparr>)"
    by (simp add: game_step_def)
  have ini: "MaxAndSkipEnv_init game_shape ?g 4 = MaxAndSkipEnv ?g ([0, 0], [0, 0] :: int list) 4"
    by (simp add: MaxAndSkipEnv_init_def np_zeros2_def game_shape_def numeral_eq_Suc)
  from MaxAndSkipEnv_buffer_spec [OF run, of 4 "([0, 0], [0, 0])"]
  show ?thesis
    using run ini by (auto simp: max_axis0_def)
qed

text \<open>
  With a skip count that is not positive the loop body never runs, \<^verbatim>\<open>info\<close> is
  never assigned, and the \<^verbatim>\<open>return\<close> raises.
\<close>

lemma MaxAndSkipEnv_step_no_iteration:
  "sk \<le> 0 \<Longrightarrow>
   MaxAndSkipEnv_step G action (MaxAndSkipEnv env buf sk) = Inl (UnboundLocalError ''info'')"
  by (simp add: MaxAndSkipEnv_step_def MaxAndSkipEnv_loop.simps [of G action sk 0])

section \<open>Properties of NoopResetEnv\<close>

lemma from_last_call_append:
  "from_last_call obs cs \<Longrightarrow> from_last_call obs (cs @ ds)"
  by (induction obs cs rule: from_last_call.induct) auto

lemma actions_append: "actions (cs @ ds) = actions cs @ actions ds"
  by (induction cs rule: actions.induct) auto

lemma noop_log_step:
  assumes "\<not> done_of r" and "noop_log kwargs action cs"
  shows "noop_log kwargs action (Step action r # cs)"
proof (cases cs)
  case Nil
  with assms show ?thesis by simp
next
  case (Cons c cs')
  with assms show ?thesis by (cases c) simp_all
qed

lemma NoopResetEnv_loop_traced:
  assumes "infallible G"
  shows "\<exists>obs' env' evs.
           NoopResetEnv_loop (traced G) kwargs action n (env, t) obs =
             Inr (obs', (env', t @ evs)) \<and>
           actions evs = replicate n action \<and>
           length (filter is_reset evs) = length (filter is_done_step evs) \<and>
           (if n = 0 then evs = [] \<and> obs' = obs else from_last_call obs' (rev evs)) \<and>
           noop_log kwargs action evs"
proof (induction n arbitrary: env t obs)
  case 0
  show ?case by simp
next
  case (Suc n)
  from assms obtain r env1 where st: "step G action env = Inr (r, env1)"
    unfolding infallible_def by blast
  obtain obs1 reward dn info where r: "r = (obs1, reward, dn, info)"
    by (cases r) auto
  show ?case
  proof (cases dn)
    case True
    from assms obtain obs2 env2 where rs: "reset G kwargs env1 = Inr (obs2, env2)"
      unfolding infallible_def by blast
    from Suc.IH [of env2 "t @ [Step action r, Reset kwargs obs2]" obs2]
    obtain obs' env' evs where
      lp: "NoopResetEnv_loop (traced G) kwargs action n
             (env2, t @ [Step action r, Reset kwargs obs2]) obs2 =
           Inr (obs', (env', (t @ [Step action r, Reset kwargs obs2]) @ evs))" and
      ac: "actions evs = replicate n action" and
      ct: "length (filter is_reset evs) = length (filter is_done_step evs)" and
      la: "if n = 0 then evs = [] \<and> obs' = obs2 else from_last_call obs' (rev evs)" and
      lg: "noop_log kwargs action evs"
      by blast
    let ?evs = "[Step action r, Reset kwargs obs2] @ evs"
    have "NoopResetEnv_loop (traced G) kwargs action (Suc n) (env, t) obs =
            Inr (obs', (env', t @ ?evs))"
      using st r True rs lp by simp
    moreover have "actions ?evs = replicate (Suc n) action"
      using ac by simp
    moreover have "length (filter is_reset ?evs) = length (filter is_done_step ?evs)"
      using ct r True by simp
    moreover have "noop_log kwargs action ?evs"
      using lg r True by simp
    moreover have "from_last_call obs' (rev ?evs)"
    proof (cases "n = 0")
      case True
      with la r \<open>dn\<close> show ?thesis by simp
    next
      case False
      with la have "from_last_call obs' (rev evs)" by simp
      then show ?thesis by (simp add: from_last_call_append)
    qed
    ultimately show ?thesis by (intro exI [of _ obs'] exI [of _ env'] exI [of _ ?evs]) simp
  next
    case False
    from Suc.IH [of env1 "t @ [Step action r]" obs1]
    obtain obs' env' evs where
      lp: "NoopResetEnv_loop (traced G) kwargs action n (env1, t @ [Step action r]) obs1 =
           Inr (obs', (env', (t @ [Step action r]) @ evs))" and
      ac: "actions evs = replicate n action" and
      ct: "length (filter is_reset evs) = length (filter is_done_step evs)" and
      la: "if n = 0 then evs = [] \<and> obs' = obs1 else from_last_call obs' (rev evs)" and
      lg: "noop_log kwargs action evs"
      by blast
    let ?evs = "[Step action r] @ evs"
    have "NoopResetEnv_loop (traced G) kwargs action (Suc n) (env, t) obs =
            Inr (obs', (env', t @ ?evs))"
      using st r False lp by simp
    moreover have "actions ?evs = replicate (Suc n) action"
      using ac by simp
    moreover have "length (filter is_reset ?evs) = length (filter is_done_step ?evs)"
      using ct r False by simp
    moreover have "noop_log kwargs action ?evs"
      using noop_log_step [OF _ lg, of r] r False by simp
    moreover have "from_last_call obs' (rev ?evs)"
    proof (cases "n = 0")
      case True
      with la r \<open>\<not> dn\<close> show ?thesis by simp
    next
      case False
      with la have "from_last_call obs' (rev evs)" by simp
      then show ?thesis by (simp add: from_last_call_append)
    qed
    ultimately show ?thesis by (intro exI [of _ obs'] exI [of _ env'] exI [of _ ?evs]) simp
  qed
qed

lemma NoopResetEnv_reset_traced:
  assumes inf: "infallible G" and rnd: "randint_ok G"
    and nm: "override = None \<longrightarrow> 1 \<le> nmax"
    and ov: "\<forall>n. override = Some n \<longrightarrow> 0 < n"
  shows "\<exists>obs env' evs noops.
           NoopResetEnv_reset (traced G) kwargs (NoopResetEnv (env, t) nmax override 0) =
             Inr (obs, NoopResetEnv (env', t @ evs) nmax override 0) \<and>
           actions evs = replicate (nat noops) 0 \<and>
           1 \<le> noops \<and>
           (override = None \<longrightarrow> noops \<le> nmax) \<and>
           (\<forall>n. override = Some n \<longrightarrow> noops = n) \<and>
           length (filter is_reset evs) = 1 + length (filter is_done_step evs) \<and>
           from_last_call obs (rev evs) \<and>
           (\<exists>obs0 body.
              evs = Reset kwargs obs0 #
                    (case override of None \<Rightarrow> [Randint 1 (nmax + 1) noops] | Some n \<Rightarrow> []) @
                    body \<and>
              noop_log kwargs 0 body)"
proof -
  from inf obtain obs0 env1 where rs: "reset G kwargs env = Inr (obs0, env1)"
    unfolding infallible_def by blast
  have "\<exists>noops env2 dr.
          (case override of Some n \<Rightarrow> Inr (n, (env1, t @ [Reset kwargs obs0]))
           | None \<Rightarrow> randint (traced G) 1 (nmax + 1) (env1, t @ [Reset kwargs obs0])) =
            Inr (noops, (env2, t @ [Reset kwargs obs0] @ dr)) \<and>
          actions dr = [] \<and> filter is_reset dr = [] \<and> filter is_done_step dr = [] \<and>
          1 \<le> noops \<and> (override = None \<longrightarrow> noops \<le> nmax) \<and>
          (\<forall>n. override = Some n \<longrightarrow> noops = n) \<and>
          dr = (case override of None \<Rightarrow> [Randint 1 (nmax + 1) noops] | Some n \<Rightarrow> [])"
  proof (cases override)
    case None
    with nm have "(1::int) < nmax + 1" by simp
    with rnd obtain n env2 where
      "randint G 1 (nmax + 1) env1 = Inr (n, env2)" "1 \<le> n" "n < nmax + 1"
      unfolding randint_ok_def by blast
    with None show ?thesis
      by (intro exI [of _ n] exI [of _ env2] exI [of _ "[Randint 1 (nmax + 1) n]"]) simp
  next
    case (Some n)
    with ov have "0 < n" by simp
    with Some show ?thesis
      by (intro exI [of _ n] exI [of _ env1] exI [of _ "[]"]) simp
  qed
  then obtain noops env2 dr where
    dr: "(case override of Some n \<Rightarrow> Inr (n, (env1, t @ [Reset kwargs obs0]))
           | None \<Rightarrow> randint (traced G) 1 (nmax + 1) (env1, t @ [Reset kwargs obs0])) =
            Inr (noops, (env2, t @ [Reset kwargs obs0] @ dr))" and
    dr0: "actions dr = []" "filter is_reset dr = []" "filter is_done_step dr = []" and
    np: "1 \<le> noops" and b1: "override = None \<longrightarrow> noops \<le> nmax" and
    b2: "\<forall>n. override = Some n \<longrightarrow> noops = n" and
    dre: "dr = (case override of None \<Rightarrow> [Randint 1 (nmax + 1) noops] | Some n \<Rightarrow> [])"
    by blast
  from NoopResetEnv_loop_traced [OF inf, of kwargs 0 "nat noops" env2
      "t @ [Reset kwargs obs0] @ dr" "[]"]
  obtain obs env' evs where
    lp: "NoopResetEnv_loop (traced G) kwargs 0 (nat noops)
           (env2, t @ [Reset kwargs obs0] @ dr) [] =
         Inr (obs, (env', (t @ [Reset kwargs obs0] @ dr) @ evs))" and
    ac: "actions evs = replicate (nat noops) 0" and
    ct: "length (filter is_reset evs) = length (filter is_done_step evs)" and
    la: "if nat noops = 0 then evs = [] \<and> obs = [] else from_last_call obs (rev evs)" and
    lg: "noop_log kwargs 0 evs"
    by blast
  let ?evs = "([Reset kwargs obs0] @ dr) @ evs"
  have "NoopResetEnv_reset (traced G) kwargs (NoopResetEnv (env, t) nmax override 0) =
          Inr (obs, NoopResetEnv (env', t @ ?evs) nmax override 0)"
    using rs dr lp np by (cases override) (simp_all add: NoopResetEnv_reset_def)
  moreover have "actions ?evs = replicate (nat noops) 0"
    using ac dr0 by (simp add: actions_append)
  moreover have "length (filter is_reset ?evs) = 1 + length (filter is_done_step ?evs)"
    using ct dr0 by simp
  moreover have "from_last_call obs (rev ?evs)"
  proof -
    from np la have "from_last_call obs (rev evs)" by simp
    then show ?thesis by (simp add: from_last_call_append)
  qed
  moreover have "\<exists>obs0 body.
              ?evs = Reset kwargs obs0 #
                    (case override of None \<Rightarrow> [Randint 1 (nmax + 1) noops] | Some n \<Rightarrow> []) @
                    body \<and>
              noop_log kwargs 0 body"
    using lg dre by (intro exI [of _ obs0] exI [of _ evs]) simp
  ultimately show ?thesis
    using np b1 b2
    by (intro exI [of _ obs] exI [of _ env'] exI [of _ ?evs] exI [of _ noops]) blast
qed

lemma NoopResetEnv_reset_not_positive:
  assumes "reset G kwargs env = Inr (obs0, env1)" and "n \<le> 0"
  shows "NoopResetEnv_reset G kwargs (NoopResetEnv env nmax (Some n) a) =
           Inl (AssertionError [])"
  using assms by (simp add: NoopResetEnv_reset_def)

text \<open>
  C5, as the specification states it: the observation that reset returns is the
  one of the last no-op step, never the one of an inner reset. It fails when the
  last no-op step ends the episode: with two no-ops on a game that is over after
  two frames, the second step returns the frame \<open>[2, 3]\<close> and done, the wrapper
  resets the inner environment, and reset returns the frame \<open>[0, 3]\<close> of that
  inner reset.
\<close>

theorem NoopResetEnv_reset_obs_counterexample:
  "NoopResetEnv_reset (traced (game_env 2)) () (NoopResetEnv (new_game, []) 30 (Some 2) 0) =
     Inr ([0, 3],
          NoopResetEnv (new_game,
                        [Reset () [0, 3], Step 0 ([1, 3], 0, False, ()),
                         Step 0 ([2, 3], 0, True, ()), Reset () [0, 3]])
                       30 (Some 2) 0)
   \<and> last_step_obs [Reset () [0, 3], Step 0 ([1, 3], 0, False, ()),
                     Step 0 ([2, 3], 0, True, ()), Reset () [0, 3 :: int]] = Some [2, 3]
   \<and> Some [0, 3] \<noteq> Some [2, 3 :: int]"
  by (simp add: NoopResetEnv_reset_def numeral_eq_Suc game_step_def game_reset_def new_game_def)

text \<open>
  C5, amended. On an inner environment that does not raise, reset returns, and
  the observation it returns is the one of the last call it made on the inner
  environment: the last no-op step when that step did not end the episode, and
  the inner reset issued right after the last no-op step when that step ended the
  episode.
\<close>

theorem NoopResetEnv_reset_obs:
  assumes "infallible G" and "randint_ok G"
    and "override = None \<longrightarrow> 1 \<le> nmax"
    and "\<forall>n. override = Some n \<longrightarrow> 0 < n"
  shows "\<exists>obs env' evs.
           NoopResetEnv_reset (traced G) kwargs (NoopResetEnv (env, t) nmax override 0) =
             Inr (obs, NoopResetEnv (env', t @ evs) nmax override 0) \<and>
           from_last_call obs (rev evs)"
  using NoopResetEnv_reset_traced [OF assms, of kwargs env t] by blast

theorem NoopResetEnv_reset_obs_witness:
  "infallible (game_env 2) \<and> randint_ok (game_env 2) \<and>
   (\<exists>obs env' evs.
      NoopResetEnv_reset (traced (game_env 2)) () (NoopResetEnv (new_game, []) 30 (Some 2) 0) =
        Inr (obs, NoopResetEnv (env', [] @ evs) 30 (Some 2) 0) \<and>
      from_last_call obs (rev evs))"
proof -
  have a: "infallible (game_env 2)" by (rule game_infallible)
  have b: "randint_ok (game_env 2)" by (rule game_randint_ok)
  have c: "Some (2::int) = None \<longrightarrow> (1::int) \<le> 30" by simp
  have d: "\<forall>n. Some (2::int) = Some n \<longrightarrow> 0 < n" by simp
  from a b NoopResetEnv_reset_obs [OF a b c d, of "()" new_game "[]"]
  show ?thesis by blast
qed

text \<open>
  C6. On an inner environment that does not raise, and with a random generator
  that honours the contract of \<^verbatim>\<open>randint\<close>, reset returns after a number
  \<open>noops\<close> of steps on the inner environment, all of them with action 0: with no
  override and \<open>noop_max \<ge> 1\<close>, \<open>1 \<le> noops \<le> noop_max\<close>; with the override \<open>n\<close>
  (positive, or the assertion of reset fails), \<open>noops = n\<close>. The inner environment
  is reset once at the start and once more after every no-op step that ended the
  episode, and the count of steps is \<open>noops\<close> all the same. The calls come in this
  order: the reset at the start, the draw of \<open>noops\<close> when there is no override,
  then the no-op steps, where the reset that a step ending the episode causes
  comes right after that step and before the next no-op, so that the remaining
  no-ops are taken on the fresh episode.
\<close>

theorem NoopResetEnv_reset_count:
  assumes "infallible G" and "randint_ok G"
    and "override = None \<longrightarrow> 1 \<le> nmax"
    and "\<forall>n. override = Some n \<longrightarrow> 0 < n"
  shows "\<exists>obs env' evs noops.
           NoopResetEnv_reset (traced G) kwargs (NoopResetEnv (env, t) nmax override 0) =
             Inr (obs, NoopResetEnv (env', t @ evs) nmax override 0) \<and>
           actions evs = replicate (nat noops) 0 \<and>
           1 \<le> noops \<and>
           (override = None \<longrightarrow> noops \<le> nmax) \<and>
           (\<forall>n. override = Some n \<longrightarrow> noops = n) \<and>
           length (filter is_reset evs) = 1 + length (filter is_done_step evs) \<and>
           (\<exists>obs0 body.
              evs = Reset kwargs obs0 #
                    (case override of None \<Rightarrow> [Randint 1 (nmax + 1) noops] | Some n \<Rightarrow> []) @
                    body \<and>
              noop_log kwargs 0 body)"
proof -
  from NoopResetEnv_reset_traced [OF assms, of kwargs env t]
  obtain obs env' evs noops where
    "NoopResetEnv_reset (traced G) kwargs (NoopResetEnv (env, t) nmax override 0) =
       Inr (obs, NoopResetEnv (env', t @ evs) nmax override 0)"
    "actions evs = replicate (nat noops) 0"
    "1 \<le> noops"
    "override = None \<longrightarrow> noops \<le> nmax"
    "\<forall>n. override = Some n \<longrightarrow> noops = n"
    "length (filter is_reset evs) = 1 + length (filter is_done_step evs)"
    "\<exists>obs0 body.
       evs = Reset kwargs obs0 #
             (case override of None \<Rightarrow> [Randint 1 (nmax + 1) noops] | Some n \<Rightarrow> []) @ body \<and>
       noop_log kwargs 0 body"
    by blast
  then show ?thesis
    by blast
qed

theorem NoopResetEnv_reset_count_witness:
  "infallible (game_env 2) \<and> randint_ok (game_env 2) \<and>
   (\<exists>obs env' evs noops.
      NoopResetEnv_reset (traced (game_env 2)) () (NoopResetEnv (new_game, []) 30 None 0) =
        Inr (obs, NoopResetEnv (env', [] @ evs) 30 None 0) \<and>
      actions evs = replicate (nat noops) 0 \<and> 1 \<le> noops \<and> noops \<le> 30 \<and>
      length (filter is_reset evs) = 1 + length (filter is_done_step evs) \<and>
      (\<exists>obs0 body. evs = Reset () obs0 # [Randint 1 (30 + 1) noops] @ body \<and>
                    noop_log () 0 body))
   \<and> (\<exists>obs env' evs.
      NoopResetEnv_reset (traced (game_env 2)) () (NoopResetEnv (new_game, []) 30 (Some 3) 0) =
        Inr (obs, NoopResetEnv (env', [] @ evs) 30 (Some 3) 0) \<and>
      actions evs = replicate 3 0 \<and>
      length (filter is_reset evs) = 1 + length (filter is_done_step evs) \<and>
      (\<exists>obs0 body. evs = Reset () obs0 # [] @ body \<and> noop_log () 0 body))
   \<and> NoopResetEnv_reset (traced (game_env 2)) () (NoopResetEnv (new_game, []) 30 (Some 3) 0) =
       Inr ([1, 3],
            NoopResetEnv (\<lparr> frames = 1, lives_left = 3, draws = 0 \<rparr>,
                          [Reset () [0, 3], Step 0 ([1, 3], 0, False, ()),
                           Step 0 ([2, 3], 0, True, ()), Reset () [0, 3],
                           Step 0 ([1, 3], 0, False, ())])
                         30 (Some 3) 0)"
proof -
  have a: "infallible (game_env 2)" by (rule game_infallible)
  have b: "randint_ok (game_env 2)" by (rule game_randint_ok)
  have c: "(None :: int option) = None \<longrightarrow> (1::int) \<le> 30" by simp
  have d: "\<forall>n. (None :: int option) = Some n \<longrightarrow> 0 < n" by simp
  have c': "Some (3::int) = None \<longrightarrow> (1::int) \<le> 30" by simp
  have d': "\<forall>n. Some (3::int) = Some n \<longrightarrow> 0 < n" by simp
  from NoopResetEnv_reset_count [OF a b c d, of "()" new_game "[]"]
  have 1: "\<exists>obs env' evs noops.
      NoopResetEnv_reset (traced (game_env 2)) () (NoopResetEnv (new_game, []) 30 None 0) =
        Inr (obs, NoopResetEnv (env', [] @ evs) 30 None 0) \<and>
      actions evs = replicate (nat noops) 0 \<and> 1 \<le> noops \<and> noops \<le> 30 \<and>
      length (filter is_reset evs) = 1 + length (filter is_done_step evs) \<and>
      (\<exists>obs0 body. evs = Reset () obs0 # [Randint 1 (30 + 1) noops] @ body \<and>
                    noop_log () 0 body)"
    by simp
  from NoopResetEnv_reset_count [OF a b c' d', of "()" new_game "[]"]
  obtain obs env' evs noops where
    e: "NoopResetEnv_reset (traced (game_env 2)) () (NoopResetEnv (new_game, []) 30 (Some 3) 0) =
          Inr (obs, NoopResetEnv (env', [] @ evs) 30 (Some 3) 0)" and
    ac: "actions evs = replicate (nat noops) 0" and
    n3: "\<forall>n. Some (3::int) = Some n \<longrightarrow> noops = n" and
    ct: "length (filter is_reset evs) = 1 + length (filter is_done_step evs)" and
    lg: "\<exists>obs0 body.
           evs = Reset () obs0 #
                 (case Some (3::int) of None \<Rightarrow> [Randint 1 (30 + 1) noops] | Some n \<Rightarrow> []) @ body \<and>
           noop_log () 0 body"
    by blast
  from n3 have "noops = 3" by simp
  with ac have ac3: "actions evs = replicate 3 0" by simp
  from lg have lg3: "\<exists>obs0 body. evs = Reset () obs0 # [] @ body \<and> noop_log () 0 body"
    by simp
  from e ac3 ct lg3
  have 2: "\<exists>obs env' evs.
      NoopResetEnv_reset (traced (game_env 2)) () (NoopResetEnv (new_game, []) 30 (Some 3) 0) =
        Inr (obs, NoopResetEnv (env', [] @ evs) 30 (Some 3) 0) \<and>
      actions evs = replicate 3 0 \<and>
      length (filter is_reset evs) = 1 + length (filter is_done_step evs) \<and>
      (\<exists>obs0 body. evs = Reset () obs0 # [] @ body \<and> noop_log () 0 body)"
    by blast
  have 3: "NoopResetEnv_reset (traced (game_env 2)) () (NoopResetEnv (new_game, []) 30 (Some 3) 0) =
       Inr ([1, 3],
            NoopResetEnv (\<lparr> frames = 1, lives_left = 3, draws = 0 \<rparr>,
                          [Reset () [0, 3], Step 0 ([1, 3], 0, False, ()),
                           Step 0 ([2, 3], 0, True, ()), Reset () [0, 3],
                           Step 0 ([1, 3], 0, False, ())])
                         30 (Some 3) 0)"
    by (simp add: NoopResetEnv_reset_def numeral_eq_Suc game_step_def game_reset_def
          new_game_def)
  from a b 1 2 3 show ?thesis by blast
qed

section \<open>Properties of FireResetEnv\<close>

lemma FireResetEnv_reset_traced:
  assumes "reset G kwargs env = Inr (obs0, env1)"
    and "step G 1 env1 = Inr (r1, env2)"
    and "if done_of r1 then reset G kwargs env2 = Inr (obs1, env3) else env3 = env2"
    and "step G 2 env3 = Inr (r2, env4)"
    and "if done_of r2 then reset G kwargs env4 = Inr (obs2, env5) else env5 = env4"
  shows "FireResetEnv_reset (traced G) kwargs (FireResetEnv (env, t)) =
           Inr (obs_of r2,
                FireResetEnv (env5,
                  t @ [Reset kwargs obs0, Step 1 r1] @
                      (if done_of r1 then [Reset kwargs obs1] else []) @ [Step 2 r2] @
                      (if done_of r2 then [Reset kwargs obs2] else [])))"
proof -
  obtain o1 w1 d1 i1 where r1: "r1 = (o1, w1, d1, i1)" by (cases r1) auto
  obtain o2 w2 d2 i2 where r2: "r2 = (o2, w2, d2, i2)" by (cases r2) auto
  show ?thesis
    using assms unfolding r1 r2
    by (cases d1; cases d2) (simp_all add: FireResetEnv_reset_def)
qed

text \<open>
  C7. FireResetEnv.reset calls the inner reset, then a step with action 1, then,
  if that step ended the episode, exactly one more inner reset, then a step with
  action 2; no step follows. The observation returned is the one of the step with
  action 2, whatever its done flag. FireResetEnv.step makes one call, the inner
  step with the same action, and returns what it returned.
\<close>

theorem FireResetEnv_reset_spec:
  "(reset G kwargs env = Inr (obs0, env1) \<and>
    step G 1 env1 = Inr (r1, env2) \<and>
    (if done_of r1 then reset G kwargs env2 = Inr (obs1, env3) else env3 = env2) \<and>
    step G 2 env3 = Inr (r2, env4) \<and>
    (if done_of r2 then reset G kwargs env4 = Inr (obs2, env5) else env5 = env4) \<longrightarrow>
    (\<exists>after.
       FireResetEnv_reset (traced G) kwargs (FireResetEnv (env, t)) =
         Inr (obs_of r2,
              FireResetEnv (env5,
                t @ [Reset kwargs obs0, Step 1 r1] @
                    (if done_of r1 then [Reset kwargs obs1] else []) @ [Step 2 r2] @ after)) \<and>
       actions after = []))
   \<and> (step G action env = Inr (r, env') \<longrightarrow>
        FireResetEnv_step (traced G) action (FireResetEnv (env, t)) =
          Inr (r, FireResetEnv (env', t @ [Step action r])))"
proof (intro conjI impI)
  assume a: "reset G kwargs env = Inr (obs0, env1) \<and>
    step G 1 env1 = Inr (r1, env2) \<and>
    (if done_of r1 then reset G kwargs env2 = Inr (obs1, env3) else env3 = env2) \<and>
    step G 2 env3 = Inr (r2, env4) \<and>
    (if done_of r2 then reset G kwargs env4 = Inr (obs2, env5) else env5 = env4)"
  have "FireResetEnv_reset (traced G) kwargs (FireResetEnv (env, t)) =
           Inr (obs_of r2,
                FireResetEnv (env5,
                  t @ [Reset kwargs obs0, Step 1 r1] @
                      (if done_of r1 then [Reset kwargs obs1] else []) @ [Step 2 r2] @
                      (if done_of r2 then [Reset kwargs obs2] else [])))"
    using a by (intro FireResetEnv_reset_traced) blast+
  moreover have "actions (if done_of r2 then [Reset kwargs obs2] else []) = []"
    by simp
  ultimately show "\<exists>after.
       FireResetEnv_reset (traced G) kwargs (FireResetEnv (env, t)) =
         Inr (obs_of r2,
              FireResetEnv (env5,
                t @ [Reset kwargs obs0, Step 1 r1] @
                    (if done_of r1 then [Reset kwargs obs1] else []) @ [Step 2 r2] @ after)) \<and>
       actions after = []"
    by blast
next
  assume "step G action env = Inr (r, env')"
  then show "FireResetEnv_step (traced G) action (FireResetEnv (env, t)) =
          Inr (r, FireResetEnv (env', t @ [Step action r]))"
    by (simp add: FireResetEnv_step_def)
qed

theorem FireResetEnv_reset_spec_witness:
  "reset (game_env 1) () new_game = Inr ([0, 3], new_game)
   \<and> step (game_env 1) 1 new_game =
       Inr (([1, 3], 1, True, ()), \<lparr> frames = 1, lives_left = 3, draws = 0 \<rparr>)
   \<and> reset (game_env 1) () \<lparr> frames = 1, lives_left = 3, draws = 0 \<rparr> = Inr ([0, 3], new_game)
   \<and> step (game_env 1) 2 new_game =
       Inr (([1, 3], 2, True, ()), \<lparr> frames = 1, lives_left = 3, draws = 0 \<rparr>)
   \<and> (\<exists>after.
        FireResetEnv_reset (traced (game_env 1)) () (FireResetEnv (new_game, [])) =
          Inr ([1, 3],
               FireResetEnv (new_game,
                 [Reset () [0, 3], Step 1 ([1, 3], 1, True, ()), Reset () [0, 3],
                  Step 2 ([1, 3], 2, True, ())] @ after)) \<and>
        actions after = [])
   \<and> FireResetEnv_step (traced (game_env 1)) 2 (FireResetEnv (new_game, [])) =
       Inr (([1, 3], 2, True, ()),
            FireResetEnv (\<lparr> frames = 1, lives_left = 3, draws = 0 \<rparr>,
                          [Step 2 ([1, 3], 2, True, ())]))"
proof -
  let ?g1 = "\<lparr> frames = 1, lives_left = 3, draws = 0 \<rparr>"
  have r0: "reset (game_env 1) () new_game = Inr ([0, 3], new_game)"
    by (simp add: game_reset_def new_game_def)
  have s1: "step (game_env 1) 1 new_game = Inr (([1, 3], 1, True, ()), ?g1)"
    by (simp add: game_step_def new_game_def)
  have r1: "reset (game_env 1) () ?g1 = Inr ([0, 3], new_game)"
    by (simp add: game_reset_def new_game_def)
  have s2: "step (game_env 1) 2 new_game = Inr (([1, 3], 2, True, ()), ?g1)"
    by (simp add: game_step_def new_game_def)
  from FireResetEnv_reset_spec [of "game_env 1" "()" new_game "[0, 3]" new_game
      "([1, 3], 1, True, ())" ?g1 "[0, 3]" new_game "([1, 3], 2, True, ())" ?g1
      "[0, 3]" new_game "[]" 2 "([1, 3], 2, True, ())" ?g1]
    r0 s1 r1 s2
  show ?thesis by simp
qed

text \<open>
  C10. When the step with action 2 ends the episode, FireResetEnv.reset calls the
  inner reset once more after it, as its last call, and still returns the
  observation of the step with action 2. The number of inner resets of such a
  call is 3 when the step with action 1 ended the episode as well, and 2
  otherwise.
\<close>

theorem FireResetEnv_reset_after_second_step:
  assumes "reset G kwargs env = Inr (obs0, env1)"
    and "step G 1 env1 = Inr (r1, env2)"
    and "if done_of r1 then reset G kwargs env2 = Inr (obs1, env3) else env3 = env2"
    and "step G 2 env3 = Inr (r2, env4)"
    and "done_of r2"
    and "reset G kwargs env4 = Inr (obs2, env5)"
  shows "\<exists>evs.
           FireResetEnv_reset (traced G) kwargs (FireResetEnv (env, t)) =
             Inr (obs_of r2, FireResetEnv (env5, t @ evs @ [Step 2 r2, Reset kwargs obs2])) \<and>
           length (filter is_reset (evs @ [Step 2 r2, Reset kwargs obs2])) =
             (if done_of r1 then 3 else 2)"
proof -
  have "if done_of r2 then reset G kwargs env4 = Inr (obs2, env5) else env5 = env4"
    using assms(5,6) by simp
  from FireResetEnv_reset_traced [OF assms(1-4) this, of t] assms(5)
  show ?thesis
    by (intro exI [of _ "[Reset kwargs obs0, Step 1 r1] @
                         (if done_of r1 then [Reset kwargs obs1] else [])"]) simp
qed

theorem FireResetEnv_reset_after_second_step_witness:
  "reset (game_env 1) () new_game = Inr ([0, 3], new_game)
   \<and> step (game_env 1) 1 new_game =
       Inr (([1, 3], 1, True, ()), \<lparr> frames = 1, lives_left = 3, draws = 0 \<rparr>)
   \<and> step (game_env 1) 2 new_game =
       Inr (([1, 3], 2, True, ()), \<lparr> frames = 1, lives_left = 3, draws = 0 \<rparr>)
   \<and> reset (game_env 1) () \<lparr> frames = 1, lives_left = 3, draws = 0 \<rparr> = Inr ([0, 3], new_game)
   \<and> (\<exists>evs.
        FireResetEnv_reset (traced (game_env 1)) () (FireResetEnv (new_game, [])) =
          Inr ([1, 3],
               FireResetEnv (new_game,
                 [] @ evs @ [Step 2 ([1, 3], 2, True, ()), Reset () [0, 3]])) \<and>
        length (filter is_reset (evs @ [Step 2 ([1, 3], 2, True, ()), Reset () [0, 3]])) = 3)"
proof -
  let ?g1 = "\<lparr> frames = 1, lives_left = 3, draws = 0 \<rparr>"
  have r0: "reset (game_env 1) () new_game = Inr ([0, 3], new_game)"
    by (simp add: game_reset_def new_game_def)
  have s1: "step (game_env 1) 1 new_game = Inr (([1, 3], 1, True, ()), ?g1)"
    by (simp add: game_step_def new_game_def)
  have r1: "reset (game_env 1) () ?g1 = Inr ([0, 3], new_game)"
    by (simp add: game_reset_def new_game_def)
  have r1': "if done_of ([1, 3 :: int], 1 :: int, True, ())
             then reset (game_env 1) () ?g1 = Inr ([0, 3], new_game) else new_game = ?g1"
    using r1 by simp
  have s2: "step (game_env 1) 2 new_game = Inr (([1, 3], 2, True, ()), ?g1)"
    by (simp add: game_step_def new_game_def)
  have d2: "done_of ([1, 3 :: int], 2 :: int, True, ())" by simp
  from FireResetEnv_reset_after_second_step [OF r0 s1 r1' s2 d2 r1, of "[]"]
  have "\<exists>evs.
        FireResetEnv_reset (traced (game_env 1)) () (FireResetEnv (new_game, [])) =
          Inr ([1, 3],
               FireResetEnv (new_game,
                 [] @ evs @ [Step 2 ([1, 3], 2, True, ()), Reset () [0, 3]])) \<and>
        length (filter is_reset (evs @ [Step 2 ([1, 3], 2, True, ()), Reset () [0, 3]])) = 3"
    by simp
  with r0 s1 s2 r1 show ?thesis by blast
qed

section \<open>Construction\<close>

lemma NoopResetEnv_init_ok:
  "0 < length (gam env) \<Longrightarrow> gam env ! 0 = ''NOOP'' \<Longrightarrow>
   NoopResetEnv_init gam env nm ov = Inr (NoopResetEnv env nm ov 0)"
  by (simp add: NoopResetEnv_init_def getitem_def)

lemma FireResetEnv_init_ok:
  "3 \<le> length (gam env) \<Longrightarrow> gam env ! 1 = ''FIRE'' \<Longrightarrow>
   FireResetEnv_init gam env = Inr (FireResetEnv env)"
  by (simp add: FireResetEnv_init_def getitem_def)

text \<open>
  C8, as the specification states it: a failing constructor raises an error that
  describes the missing capability. The constructors check with a bare
  \<^verbatim>\<open>assert\<close>: on an action set without NOOP at index 0, or without FIRE at
  index 1, the error is an \<^verbatim>\<open>AssertionError\<close> whose message is empty.
\<close>

theorem construction_error_counterexample:
  "NoopResetEnv_init (\<lambda>g. [''UP'', ''FIRE'', ''DOWN'']) new_game 30 None =
     Inl (AssertionError [])
   \<and> message (AssertionError []) = []
   \<and> FireResetEnv_init (\<lambda>g. [''NOOP'', ''UP'', ''DOWN'']) new_game = Inl (AssertionError [])"
  by (simp add: NoopResetEnv_init_def FireResetEnv_init_def getitem_def)

text \<open>
  C8, amended. The constructor of NoopResetEnv fails whenever the action meaning
  at index 0 is not NOOP, and the constructor of FireResetEnv fails whenever the
  action meaning at index 1 is not FIRE or there are fewer than 3 actions. The
  failure happens in the constructor, which returns no wrapper; the error is an
  \<^verbatim>\<open>AssertionError\<close> without a message, or the \<^verbatim>\<open>IndexError\<close> of the list
  when the action set has no such index.
\<close>

theorem construction_fails_fast:
  "(\<not> (0 < length (gam env) \<and> gam env ! 0 = ''NOOP'') \<longrightarrow>
      NoopResetEnv_init gam env nm ov =
        Inl (if length (gam env) < 1 then IndexError ''list index out of range''
             else AssertionError []))
   \<and> (\<not> (1 < length (gam env) \<and> gam env ! 1 = ''FIRE'') \<or> length (gam env) < 3 \<longrightarrow>
      FireResetEnv_init gam env =
        Inl (if length (gam env) < 2 then IndexError ''list index out of range''
             else AssertionError []))"
  by (auto simp: NoopResetEnv_init_def FireResetEnv_init_def getitem_def)

theorem construction_fails_fast_witness:
  "\<not> (0 < length [''UP'', ''FIRE''] \<and> [''UP'', ''FIRE''] ! 0 = ''NOOP'')
   \<and> NoopResetEnv_init (\<lambda>g. [''UP'', ''FIRE'']) new_game 30 None = Inl (AssertionError [])
   \<and> length [''UP'', ''FIRE''] < 3
   \<and> FireResetEnv_init (\<lambda>g. [''UP'', ''FIRE'']) new_game = Inl (AssertionError [])
   \<and> NoopResetEnv_init (\<lambda>g. []) new_game 30 None = Inl (IndexError ''list index out of range'')
   \<and> FireResetEnv_init (\<lambda>g. [''NOOP'']) new_game = Inl (IndexError ''list index out of range'')"
proof -
  have a: "\<not> (0 < length [''UP'', ''FIRE''] \<and> [''UP'', ''FIRE''] ! 0 = ''NOOP'')" by simp
  have b: "length [''UP'', ''FIRE''] < 3" by simp
  from construction_fails_fast [of "\<lambda>g. [''UP'', ''FIRE'']" new_game 30 None]
       construction_fails_fast [of "\<lambda>g. []" new_game 30 None]
       construction_fails_fast [of "\<lambda>g. [''NOOP'']" new_game 30 None]
  show ?thesis by simp
qed

lemma unwrapped_MaxAndSkipEnv_init [simp]:
  "unwrapped (MaxAndSkip (MaxAndSkipEnv_init sh env sk)) = unwrapped env"
  by (simp add: MaxAndSkipEnv_init_def)

lemma wrappers_MaxAndSkipEnv_init [simp]:
  "wrappers (MaxAndSkip (MaxAndSkipEnv_init sh env sk)) = ''MaxAndSkipEnv'' # wrappers env"
  by (simp add: MaxAndSkipEnv_init_def)

text \<open>
  C9. AtariWrapper: the constructor returns when the raw environment has NOOP at
  index 0 of its action meanings, has FIRE at index 1 and at least 3 actions if
  FIRE is among its action meanings, and the screen size is not negative.
  Whenever it returns, the wrappers around the raw environment are, from the
  innermost to the outermost: NoopResetEnv, MaxAndSkipEnv, EpisodicLifeEnv if and
  only if \<open>terminal_on_life_loss\<close>, FireResetEnv if and only if FIRE is among the
  action meanings of the raw environment, WarpFrame, ClipRewardEnv if and only if
  \<open>clip_reward\<close>; there is no other wrapper.
\<close>

theorem AtariWrapper_init_spec:
  "(0 < length (raw_meanings env) \<and> raw_meanings env ! 0 = ''NOOP'' \<and>
    (''FIRE'' \<in> set (raw_meanings env) \<longrightarrow>
       3 \<le> length (raw_meanings env) \<and> raw_meanings env ! 1 = ''FIRE'') \<and>
    0 \<le> screen_size \<longrightarrow>
    (\<exists>w. AtariWrapper_init raw_meanings raw_shape env nmax frame_skip region' screen_size
            override terminal_on_life_loss clip_reward = Inr (w :: ('s, 'p::zero, 'g) Env AtariWrapper)))
   \<and> (\<forall>w :: ('s, 'p::zero, 'g) Env AtariWrapper.
        AtariWrapper_init raw_meanings raw_shape env nmax frame_skip region' screen_size
          override terminal_on_life_loss clip_reward = Inr w \<longrightarrow>
        rev (wrappers (atari_env w)) =
          [''NoopResetEnv'', ''MaxAndSkipEnv''] @
          (if terminal_on_life_loss then [''EpisodicLifeEnv''] else []) @
          (if ''FIRE'' \<in> set (raw_meanings env) then [''FireResetEnv''] else []) @
          [''WarpFrame''] @
          (if clip_reward then [''ClipRewardEnv''] else []) \<and>
        unwrapped (atari_env w) = env)"
proof (rule conjI; (rule allI)?; rule impI)
  assume a: "0 < length (raw_meanings env) \<and> raw_meanings env ! 0 = ''NOOP'' \<and>
    (''FIRE'' \<in> set (raw_meanings env) \<longrightarrow>
       3 \<le> length (raw_meanings env) \<and> raw_meanings env ! 1 = ''FIRE'') \<and>
    0 \<le> screen_size"
  then show "\<exists>w. AtariWrapper_init raw_meanings raw_shape env nmax frame_skip region' screen_size
            override terminal_on_life_loss clip_reward = Inr (w :: ('s, 'p, 'g) Env AtariWrapper)"
    by (auto simp: AtariWrapper_init_def Let_def NoopResetEnv_init_def FireResetEnv_init_def
          getitem_def WarpFrame_init_def EpisodicLifeEnv_init_def ClipRewardEnv_init_def)
next
  fix w :: "('s, 'p, 'g) Env AtariWrapper"
  assume "AtariWrapper_init raw_meanings raw_shape env nmax frame_skip region' screen_size
          override terminal_on_life_loss clip_reward = Inr w"
  then show "rev (wrappers (atari_env w)) =
          [''NoopResetEnv'', ''MaxAndSkipEnv''] @
          (if terminal_on_life_loss then [''EpisodicLifeEnv''] else []) @
          (if ''FIRE'' \<in> set (raw_meanings env) then [''FireResetEnv''] else []) @
          [''WarpFrame''] @
          (if clip_reward then [''ClipRewardEnv''] else []) \<and>
        unwrapped (atari_env w) = env"
    by (auto simp: AtariWrapper_init_def Let_def NoopResetEnv_init_def FireResetEnv_init_def
          getitem_def WarpFrame_init_def EpisodicLifeEnv_init_def ClipRewardEnv_init_def
          split: if_splits sum.splits)
qed

theorem AtariWrapper_init_spec_witness:
  "0 < length (game_meanings new_game) \<and> game_meanings new_game ! 0 = ''NOOP'' \<and>
   ''FIRE'' \<in> set (game_meanings new_game) \<and>
   3 \<le> length (game_meanings new_game) \<and> game_meanings new_game ! 1 = ''FIRE'' \<and>
   (0::int) \<le> 84
   \<and> AtariWrapper_init game_meanings game_shape new_game 30 4 (None :: unit option) 84 None
        True True =
      Inr (AtariWrapper (ClipReward (ClipRewardEnv (Warp (WarpFrame
             (FireReset (FireResetEnv (EpisodicLife (EpisodicLifeEnv
                (MaxAndSkip (MaxAndSkipEnv (Noop (NoopResetEnv (Unwrapped new_game) 30 None 0))
                   ([0, 0], [0, 0 :: int]) 4))
                0 True))))
             84 84 None [84, 84, 1])))))
   \<and> rev (wrappers (ClipReward (ClipRewardEnv (Warp (WarpFrame
             (FireReset (FireResetEnv (EpisodicLife (EpisodicLifeEnv
                (MaxAndSkip (MaxAndSkipEnv (Noop (NoopResetEnv (Unwrapped new_game) 30 None 0))
                   ([0, 0], [0, 0 :: int]) 4))
                0 True))))
             84 84 (None :: unit option) [84, 84, 1]))))) =
      [''NoopResetEnv'', ''MaxAndSkipEnv'', ''EpisodicLifeEnv'', ''FireResetEnv'',
       ''WarpFrame'', ''ClipRewardEnv'']"
proof -
  let ?w = "AtariWrapper (ClipReward (ClipRewardEnv (Warp (WarpFrame
             (FireReset (FireResetEnv (EpisodicLife (EpisodicLifeEnv
                (MaxAndSkip (MaxAndSkipEnv (Noop (NoopResetEnv (Unwrapped new_game) 30 None 0))
                   ([0, 0], [0, 0 :: int]) 4))
                0 True))))
             84 84 (None :: unit option) [84, 84, 1]))))"
  have h: "0 < length (game_meanings new_game) \<and> game_meanings new_game ! 0 = ''NOOP'' \<and>
     (''FIRE'' \<in> set (game_meanings new_game) \<longrightarrow>
        3 \<le> length (game_meanings new_game) \<and> game_meanings new_game ! 1 = ''FIRE'') \<and>
     (0::int) \<le> 84"
    by (simp add: game_meanings_def)
  have e: "AtariWrapper_init game_meanings game_shape new_game 30 4 None 84 None True True =
             Inr ?w"
    by (simp add: AtariWrapper_init_def Let_def NoopResetEnv_init_def FireResetEnv_init_def
          getitem_def WarpFrame_init_def EpisodicLifeEnv_init_def ClipRewardEnv_init_def
          MaxAndSkipEnv_init_def np_zeros2_def game_meanings_def game_shape_def numeral_eq_Suc)
  from AtariWrapper_init_spec [of game_meanings new_game 84 game_shape 30 4 None None True True]
    h e
  have "rev (wrappers (atari_env ?w)) =
      [''NoopResetEnv'', ''MaxAndSkipEnv'', ''EpisodicLifeEnv'', ''FireResetEnv'',
       ''WarpFrame'', ''ClipRewardEnv'']"
    by (simp add: game_meanings_def)
  with h e show ?thesis by (simp add: game_meanings_def)
qed

end
